theory Spec2Isabelle
  imports Main
begin

section \<open>Memory model\<close>

text \<open>
  Nodes live in a store of allocated objects. An address is an index into the store; a
  pointer is an optional address (\<open>None\<close> is \<open>nullptr\<close>). A freed node leaves
  \<open>None\<close> in its cell, and the allocator always hands out the next unused index, so a
  dangling pointer is detected. Every dereference of a null or dangling pointer, every
  access outside a node's buffer and every read of a slot that holds no live object is
  undefined behaviour of the C++ program; the model returns \<open>Inl UB\<close> there.
  Allocation itself never fails in the model.
\<close>

type_synonym addr = nat

datatype error = UB

text \<open>
  \<open>struct Node\<close>: \<open>size\<close>, \<open>next\<close>, \<open>prev\<close> and the buffer \<open>data\<close> of
  \<open>NodeMaxSize\<close> slots. A slot is \<open>Some v\<close> when it holds an object (constructed by
  placement new, or written by assignment) and \<open>None\<close> when it is raw or destroyed.
\<close>

record 'a Node =
  nsize :: nat
  "next" :: "addr option"
  prev :: "addr option"
  data :: "'a option list"

type_synonym 'a store = "'a Node option list"

definition lookup :: "'a store \<Rightarrow> addr \<Rightarrow> 'a Node option" where
  "lookup h a = (if a < length h then h ! a else None)"

text \<open>Dereference of a \<open>Node*\<close>.\<close>

definition node_at :: "'a store \<Rightarrow> addr option \<Rightarrow> error + (addr \<times> 'a Node)" where
  "node_at h p =
     (case p of
        None \<Rightarrow> Inl UB
      | Some a \<Rightarrow> (case lookup h a of None \<Rightarrow> Inl UB | Some n \<Rightarrow> Inr (a, n)))"

text \<open>The statements \<open>p->next = v\<close> and \<open>p->prev = v\<close>.\<close>

definition assign_next :: "'a store \<Rightarrow> addr \<Rightarrow> addr option \<Rightarrow> error + 'a store" where
  "assign_next h a v =
     (case lookup h a of None \<Rightarrow> Inl UB | Some n \<Rightarrow> Inr (h[a := Some (n\<lparr>next := v\<rparr>)]))"

definition assign_prev :: "'a store \<Rightarrow> addr \<Rightarrow> addr option \<Rightarrow> error + 'a store" where
  "assign_prev h a v =
     (case lookup h a of None \<Rightarrow> Inl UB | Some n \<Rightarrow> Inr (h[a := Some (n\<lparr>prev := v\<rparr>)]))"

text \<open>
  \<open>size_t\<close> is an unsigned 64-bit integer: decrementing zero wraps around. Counters are
  natural numbers; an increment never reaches \<open>2^64\<close>, since that many elements do
  not fit into the address space.
\<close>

definition dec_size_t :: "nat \<Rightarrow> nat" where
  "dec_size_t n = (if n = 0 then 2 ^ 64 - 1 else n - 1)"

text \<open>\<open>allocator_traits::destroy(alloc, data + i)\<close>: ends the lifetime of the object in slot \<open>i\<close>.\<close>

definition destroy :: "'a option list \<Rightarrow> nat \<Rightarrow> error + 'a option list" where
  "destroy d i =
     (if i < length d then (case d ! i of None \<Rightarrow> Inl UB | Some x \<Rightarrow> Inr (d[i := None]))
      else Inl UB)"

section \<open>Node\<close>

text \<open>\<open>Node::emplace_back\<close> (and \<open>Node::push_back\<close>): placement new at \<open>data + size\<close>.\<close>

definition Node_emplace_back :: "'a Node \<Rightarrow> 'a \<Rightarrow> error + 'a Node" where
  "Node_emplace_back n v =
     (if nsize n < length (data n)
      then Inr (n\<lparr>data := (data n)[nsize n := Some v], nsize := nsize n + 1\<rparr>)
      else Inl UB)"

text \<open>
  The loop of \<open>Node::insert\<close>: \<open>for (i = size; i > pos; --i) data[i] = std::move(data[i - 1])\<close>.
  The moved-from slot keeps its object.
\<close>

function insert_loop :: "nat \<Rightarrow> nat \<Rightarrow> 'a option list \<Rightarrow> error + 'a option list" where
  "insert_loop i pos d =
     (if i > pos then
        (if i < length d then
           (case d ! (i - 1) of
              None \<Rightarrow> Inl UB
            | Some x \<Rightarrow> insert_loop (i - 1) pos (d[i := Some x]))
         else Inl UB)
      else Inr d)"
  by pat_completeness auto
termination
  by (relation "measure (\<lambda>(i, pos, d). i)") auto

declare insert_loop.simps [simp del]

definition Node_insert :: "'a Node \<Rightarrow> nat \<Rightarrow> 'a \<Rightarrow> error + 'a Node" where
  "Node_insert n pos v =
     (case insert_loop (nsize n) pos (data n) of
        Inl e \<Rightarrow> Inl e
      | Inr d \<Rightarrow>
          (if pos < length d
           then Inr (n\<lparr>data := d[pos := Some v], nsize := nsize n + 1\<rparr>)
           else Inl UB))"

text \<open>
  The loop of \<open>Node::erase\<close>: \<open>for (i = pos; i < size - 1; ++i) data[i] = std::move(data[i + 1])\<close>,
  where \<open>bound\<close> is \<open>size - 1\<close> computed in \<open>size_t\<close>.
\<close>

function erase_loop :: "nat \<Rightarrow> nat \<Rightarrow> 'a option list \<Rightarrow> error + 'a option list" where
  "erase_loop i bound d =
     (if i < bound then
        (if i + 1 < length d then
           (case d ! (i + 1) of
              None \<Rightarrow> Inl UB
            | Some x \<Rightarrow> erase_loop (i + 1) bound (d[i := Some x]))
         else Inl UB)
      else Inr d)"
  by pat_completeness auto
termination
  by (relation "measure (\<lambda>(i, bound, d). bound - i)") auto

declare erase_loop.simps [simp del]

definition Node_erase :: "'a Node \<Rightarrow> nat \<Rightarrow> error + 'a Node" where
  "Node_erase n pos =
     (case destroy (data n) pos of
        Inl e \<Rightarrow> Inl e
      | Inr d \<Rightarrow>
          (case erase_loop pos (dec_size_t (nsize n)) d of
             Inl e \<Rightarrow> Inl e
           | Inr d' \<Rightarrow> Inr (n\<lparr>data := d', nsize := dec_size_t (nsize n)\<rparr>)))"

definition is_full :: "nat \<Rightarrow> 'a Node \<Rightarrow> bool" where
  "is_full NodeMaxSize n = (nsize n = NodeMaxSize)"

section \<open>Container\<close>

text \<open>
  \<open>class unrolled_list\<close>: the members \<open>head\<close>, \<open>tail\<close> and \<open>size_\<close> (the field
  \<open>size_m\<close>), together with the store in which the nodes of this list are allocated. A
  list never holds a pointer into the store of another list, so each list value carries
  its own store. The template parameter \<open>NodeMaxSize\<close> is the first argument of every
  operation that needs it.
\<close>

record 'a unrolled_list =
  head :: "addr option"
  tail :: "addr option"
  size_m :: nat
  heap :: "'a store"

definition unrolled_list_default :: "'a unrolled_list" where
  "unrolled_list_default = \<lparr>head = None, tail = None, size_m = 0, heap = []\<rparr>"

definition empty_ul :: "'a unrolled_list \<Rightarrow> bool" where
  "empty_ul c = (size_m c = 0)"

definition size_ul :: "'a unrolled_list \<Rightarrow> nat" where
  "size_ul c = size_m c"

definition create_node ::
  "nat \<Rightarrow> 'a unrolled_list \<Rightarrow> addr option \<Rightarrow> addr option \<Rightarrow> error + ('a unrolled_list \<times> addr)" where
  "create_node NodeMaxSize c prev_node next_node =
     (let new_node = length (heap c);
          h0 = heap c @ [Some \<lparr>nsize = 0, next = next_node, prev = prev_node,
                               data = replicate NodeMaxSize None\<rparr>]
      in case (case prev_node of None \<Rightarrow> Inr h0 | Some p \<Rightarrow> assign_next h0 p (Some new_node)) of
           Inl e \<Rightarrow> Inl e
         | Inr h1 \<Rightarrow>
             (case (case next_node of None \<Rightarrow> Inr h1 | Some q \<Rightarrow> assign_prev h1 q (Some new_node)) of
                Inl e \<Rightarrow> Inl e
              | Inr h2 \<Rightarrow>
                  Inr (c\<lparr>head := (if head c = None then Some new_node else head c),
                         tail := (if next_node = None then Some new_node else tail c),
                         heap := h2\<rparr>, new_node)))"

definition destroy_node :: "'a unrolled_list \<Rightarrow> addr \<Rightarrow> error + 'a unrolled_list" where
  "destroy_node c node =
     (case lookup (heap c) node of
        None \<Rightarrow> Inl UB
      | Some n \<Rightarrow>
          (case (case prev n of None \<Rightarrow> Inr (heap c) | Some p \<Rightarrow> assign_next (heap c) p (next n)) of
             Inl e \<Rightarrow> Inl e
           | Inr h1 \<Rightarrow>
               (case lookup h1 node of
                  None \<Rightarrow> Inl UB
                | Some n1 \<Rightarrow>
                    (case (case next n1 of None \<Rightarrow> Inr h1 | Some q \<Rightarrow> assign_prev h1 q (prev n1)) of
                       Inl e \<Rightarrow> Inl e
                     | Inr h2 \<Rightarrow>
                         (case lookup h2 node of
                            None \<Rightarrow> Inl UB
                          | Some n2 \<Rightarrow>
                              (let head1 = (if Some node = head c then next n2 else head c);
                                   tail1 = (if Some node = tail c then prev n2 else tail c)
                               in Inr (c\<lparr>head := head1, tail := tail1,
                                         heap := h2[node := None]\<rparr>)))))))"

subsection \<open>Iterators\<close>

record iterator_impl =
  current_node :: "addr option"
  current_pos :: nat

definition cbegin :: "'a unrolled_list \<Rightarrow> iterator_impl" where
  "cbegin c = \<lparr>current_node = head c, current_pos = 0\<rparr>"

definition cend :: "iterator_impl" where
  "cend = \<lparr>current_node = None, current_pos = 0\<rparr>"

text \<open>\<open>operator*\<close>: \<open>current_node->data[current_pos]\<close>.\<close>

definition deref :: "'a unrolled_list \<Rightarrow> iterator_impl \<Rightarrow> error + 'a" where
  "deref c it =
     (case node_at (heap c) (current_node it) of
        Inl e \<Rightarrow> Inl e
      | Inr (a, n) \<Rightarrow>
          (if current_pos it < length (data n)
           then (case data n ! current_pos it of None \<Rightarrow> Inl UB | Some x \<Rightarrow> Inr x)
           else Inl UB))"

text \<open>Prefix \<open>operator++\<close>.\<close>

definition increment :: "'a unrolled_list \<Rightarrow> iterator_impl \<Rightarrow> error + iterator_impl" where
  "increment c it =
     (case node_at (heap c) (current_node it) of
        Inl e \<Rightarrow> Inl e
      | Inr (a, n) \<Rightarrow>
          (if current_pos it + 1 < nsize n
           then Inr (it\<lparr>current_pos := current_pos it + 1\<rparr>)
           else Inr \<lparr>current_node = next n, current_pos = 0\<rparr>))"

text \<open>Prefix \<open>operator--\<close>.\<close>

definition decrement :: "'a unrolled_list \<Rightarrow> iterator_impl \<Rightarrow> error + iterator_impl" where
  "decrement c it =
     (if current_pos it > 0 then Inr (it\<lparr>current_pos := current_pos it - 1\<rparr>)
      else
        (case node_at (heap c) (current_node it) of
           Inl e \<Rightarrow> Inl e
         | Inr (a, n) \<Rightarrow>
             (case prev n of
                None \<Rightarrow> Inr \<lparr>current_node = None, current_pos = 0\<rparr>
              | Some p \<Rightarrow>
                  (case lookup (heap c) p of
                     None \<Rightarrow> Inl UB
                   | Some pn \<Rightarrow> Inr \<lparr>current_node = Some p, current_pos = dec_size_t (nsize pn)\<rparr>))))"

subsection \<open>Push and pop at the ends\<close>

definition emplace_back :: "nat \<Rightarrow> 'a unrolled_list \<Rightarrow> 'a \<Rightarrow> error + 'a unrolled_list" where
  "emplace_back NodeMaxSize c v =
     (case (if empty_ul c then map_sum id fst (create_node NodeMaxSize c None None) else Inr c) of
        Inl e \<Rightarrow> Inl e
      | Inr c1 \<Rightarrow>
          (case node_at (heap c1) (tail c1) of
             Inl e \<Rightarrow> Inl e
           | Inr (t, tn) \<Rightarrow>
               (case (if is_full NodeMaxSize tn
                      then map_sum id fst (create_node NodeMaxSize c1 (tail c1) None)
                      else Inr c1) of
                  Inl e \<Rightarrow> Inl e
                | Inr c2 \<Rightarrow>
                    (case node_at (heap c2) (tail c2) of
                       Inl e \<Rightarrow> Inl e
                     | Inr (t2, tn2) \<Rightarrow>
                         (case Node_emplace_back tn2 v of
                            Inl e \<Rightarrow> Inl e
                          | Inr tn3 \<Rightarrow>
                              Inr (c2\<lparr>size_m := size_m c2 + 1,
                                      heap := (heap c2)[t2 := Some tn3]\<rparr>))))))"

definition push_back :: "nat \<Rightarrow> 'a unrolled_list \<Rightarrow> 'a \<Rightarrow> error + 'a unrolled_list" where
  "push_back NodeMaxSize c v = emplace_back NodeMaxSize c v"

definition pop_back :: "'a unrolled_list \<Rightarrow> error + 'a unrolled_list" where
  "pop_back c =
     (if empty_ul c then Inr c
      else
        (case node_at (heap c) (tail c) of
           Inl e \<Rightarrow> Inl e
         | Inr (t, tn) \<Rightarrow>
             (if nsize tn = 0 then Inl UB
              else
                (case destroy (data tn) (nsize tn - 1) of
                   Inl e \<Rightarrow> Inl e
                 | Inr d \<Rightarrow>
                     (let tn1 = tn\<lparr>data := d, nsize := dec_size_t (nsize tn)\<rparr>;
                          c1 = c\<lparr>size_m := dec_size_t (size_m c), heap := (heap c)[t := Some tn1]\<rparr>
                      in if nsize tn1 = 0 \<and> tail c1 \<noteq> head c1 then
                           (case destroy_node c1 t of
                              Inl e \<Rightarrow> Inl e
                            | Inr c2 \<Rightarrow> Inr (c2\<lparr>tail := prev tn1\<rparr>))
                         else Inr c1)))))"

definition emplace_front :: "nat \<Rightarrow> 'a unrolled_list \<Rightarrow> 'a \<Rightarrow> error + 'a unrolled_list" where
  "emplace_front NodeMaxSize c v =
     (case (if empty_ul c then map_sum id fst (create_node NodeMaxSize c None None) else Inr c) of
        Inl e \<Rightarrow> Inl e
      | Inr c1 \<Rightarrow>
          (case node_at (heap c1) (head c1) of
             Inl e \<Rightarrow> Inl e
           | Inr (h, hn) \<Rightarrow>
               (case (if is_full NodeMaxSize hn
                      then (case create_node NodeMaxSize c1 None (head c1) of
                              Inl e \<Rightarrow> Inl e
                            | Inr (c', new_node) \<Rightarrow> Inr (c'\<lparr>head := Some new_node\<rparr>))
                      else Inr c1) of
                  Inl e \<Rightarrow> Inl e
                | Inr c2 \<Rightarrow>
                    (case node_at (heap c2) (head c2) of
                       Inl e \<Rightarrow> Inl e
                     | Inr (h2, hn2) \<Rightarrow>
                         (case Node_insert hn2 0 v of
                            Inl e \<Rightarrow> Inl e
                          | Inr hn3 \<Rightarrow>
                              Inr (c2\<lparr>size_m := size_m c2 + 1,
                                      heap := (heap c2)[h2 := Some hn3]\<rparr>))))))"

definition push_front :: "nat \<Rightarrow> 'a unrolled_list \<Rightarrow> 'a \<Rightarrow> error + 'a unrolled_list" where
  "push_front NodeMaxSize c v = emplace_front NodeMaxSize c v"

text \<open>
  The loop of \<open>pop_front\<close>:
  \<open>for (i = 1; i < head->size; ++i) head->data[i - 1] = std::move(head->data[i])\<close>.
\<close>

function pop_front_loop :: "nat \<Rightarrow> nat \<Rightarrow> 'a option list \<Rightarrow> error + 'a option list" where
  "pop_front_loop i sz d =
     (if i < sz then
        (if i < length d then
           (case d ! i of
              None \<Rightarrow> Inl UB
            | Some x \<Rightarrow> pop_front_loop (i + 1) sz (d[i - 1 := Some x]))
         else Inl UB)
      else Inr d)"
  by pat_completeness auto
termination
  by (relation "measure (\<lambda>(i, sz, d). sz - i)") auto

declare pop_front_loop.simps [simp del]

definition pop_front :: "'a unrolled_list \<Rightarrow> error + 'a unrolled_list" where
  "pop_front c =
     (if empty_ul c then Inr c
      else
        (case node_at (heap c) (head c) of
           Inl e \<Rightarrow> Inl e
         | Inr (h, hn) \<Rightarrow>
             (case destroy (data hn) 0 of
                Inl e \<Rightarrow> Inl e
              | Inr d \<Rightarrow>
                  (case pop_front_loop 1 (nsize hn) d of
                     Inl e \<Rightarrow> Inl e
                   | Inr d' \<Rightarrow>
                       (let hn1 = hn\<lparr>data := d', nsize := dec_size_t (nsize hn)\<rparr>;
                            c1 = c\<lparr>size_m := dec_size_t (size_m c), heap := (heap c)[h := Some hn1]\<rparr>
                        in if nsize hn1 = 0 then
                             (case destroy_node c1 h of
                                Inl e \<Rightarrow> Inl e
                              | Inr c2 \<Rightarrow>
                                  (let c3 = c2\<lparr>head := next hn1\<rparr>
                                   in Inr (if head c3 = None then c3\<lparr>tail := None\<rparr> else c3)))
                           else Inr c1)))))"

subsection \<open>Insertion and removal at a position\<close>

text \<open>
  The loop of the split in \<open>emplace\<close>:
  \<open>for (i = half; i < NodeMaxSize; ++i) { new_node->emplace_back(std::move(node->data[i]));
  destroy(node->data + i); }\<close>. The two nodes are distinct objects.
\<close>

function split_loop ::
  "nat \<Rightarrow> nat \<Rightarrow> 'a Node \<Rightarrow> 'a Node \<Rightarrow> error + ('a Node \<times> 'a Node)" where
  "split_loop i NodeMaxSize node new_node =
     (if i < NodeMaxSize then
        (if i < length (data node) then
           (case data node ! i of
              None \<Rightarrow> Inl UB
            | Some x \<Rightarrow>
                (case Node_emplace_back new_node x of
                   Inl e \<Rightarrow> Inl e
                 | Inr new_node' \<Rightarrow>
                     split_loop (i + 1) NodeMaxSize
                       (node\<lparr>data := (data node)[i := None]\<rparr>) new_node'))
         else Inl UB)
      else Inr (node, new_node))"
  by pat_completeness auto
termination
  by (relation "measure (\<lambda>(i, m, n, n'). m - i)") auto

declare split_loop.simps [simp del]

definition emplace ::
  "nat \<Rightarrow> 'a unrolled_list \<Rightarrow> iterator_impl \<Rightarrow> 'a \<Rightarrow> error + ('a unrolled_list \<times> iterator_impl)" where
  "emplace NodeMaxSize c pos v =
     (if pos = cend then
        (case emplace_back NodeMaxSize c v of
           Inl e \<Rightarrow> Inl e
         | Inr c' \<Rightarrow>
             (case node_at (heap c') (tail c') of
                Inl e \<Rightarrow> Inl e
              | Inr (t, tn) \<Rightarrow>
                  Inr (c', \<lparr>current_node = tail c', current_pos = dec_size_t (nsize tn)\<rparr>)))
      else
        (case node_at (heap c) (current_node pos) of
           Inl e \<Rightarrow> Inl e
         | Inr (node, n) \<Rightarrow>
             (let pos_in_node = current_pos pos in
              if \<not> is_full NodeMaxSize n then
                (case Node_insert n pos_in_node v of
                   Inl e \<Rightarrow> Inl e
                 | Inr n' \<Rightarrow>
                     Inr (c\<lparr>size_m := size_m c + 1, heap := (heap c)[node := Some n']\<rparr>,
                          \<lparr>current_node = Some node, current_pos = pos_in_node\<rparr>))
              else
                (case create_node NodeMaxSize c (Some node) (next n) of
                   Inl e \<Rightarrow> Inl e
                 | Inr (c1, new_node) \<Rightarrow>
                     (let half = NodeMaxSize div 2 in
                      case lookup (heap c1) node of
                        None \<Rightarrow> Inl UB
                      | Some n1 \<Rightarrow>
                          (case lookup (heap c1) new_node of
                             None \<Rightarrow> Inl UB
                           | Some nn1 \<Rightarrow>
                               (case split_loop half NodeMaxSize n1 nn1 of
                                  Inl e \<Rightarrow> Inl e
                                | Inr (n2, nn2) \<Rightarrow>
                                    (let n3 = n2\<lparr>nsize := half\<rparr>;
                                         nn3 = nn2\<lparr>nsize := NodeMaxSize - half\<rparr>
                                     in if pos_in_node < half then
                                          (case Node_insert n3 pos_in_node v of
                                             Inl e \<Rightarrow> Inl e
                                           | Inr n4 \<Rightarrow>
                                               Inr (c1\<lparr>size_m := size_m c1 + 1,
                                                       heap := (heap c1)[node := Some n4,
                                                                        new_node := Some nn3]\<rparr>,
                                                    \<lparr>current_node = Some node,
                                                     current_pos = pos_in_node\<rparr>))
                                        else
                                          (case Node_insert nn3 (pos_in_node - half) v of
                                             Inl e \<Rightarrow> Inl e
                                           | Inr nn4 \<Rightarrow>
                                               Inr (c1\<lparr>size_m := size_m c1 + 1,
                                                       heap := (heap c1)[node := Some n3,
                                                                        new_node := Some nn4]\<rparr>,
                                                    \<lparr>current_node = Some new_node,
                                                     current_pos = pos_in_node - half\<rparr>))))))))))"

definition insert_ul ::
  "nat \<Rightarrow> 'a unrolled_list \<Rightarrow> iterator_impl \<Rightarrow> 'a \<Rightarrow> error + ('a unrolled_list \<times> iterator_impl)" where
  "insert_ul NodeMaxSize c pos v = emplace NodeMaxSize c pos v"

definition erase ::
  "'a unrolled_list \<Rightarrow> iterator_impl \<Rightarrow> error + ('a unrolled_list \<times> iterator_impl)" where
  "erase c pos =
     (case node_at (heap c) (current_node pos) of
        Inl e \<Rightarrow> Inl e
      | Inr (node, n) \<Rightarrow>
          (let pos_in_node = current_pos pos in
           case Node_erase n pos_in_node of
             Inl e \<Rightarrow> Inl e
           | Inr n' \<Rightarrow>
               (let c1 = c\<lparr>size_m := dec_size_t (size_m c), heap := (heap c)[node := Some n']\<rparr>
                in if nsize n' = 0 \<and> Some node \<noteq> head c1 then
                     (case destroy_node c1 node of
                        Inl e \<Rightarrow> Inl e
                      | Inr c2 \<Rightarrow> Inr (c2, \<lparr>current_node = next n', current_pos = 0\<rparr>))
                   else
                     Inr (c1, \<lparr>current_node = Some node,
                               current_pos = (if pos_in_node < nsize n' then pos_in_node else 0)\<rparr>))))"

text \<open>
  \<open>erase(first, last)\<close>: \<open>while (first != last) first = erase(first)\<close>. The loop need not
  end; \<open>None\<close> stands for a run that does not return.
\<close>

partial_function (option) erase_range ::
  "'a unrolled_list \<Rightarrow> iterator_impl \<Rightarrow> iterator_impl \<Rightarrow>
     (error + ('a unrolled_list \<times> iterator_impl)) option" where
  "erase_range c first lst =
     (if first \<noteq> lst then
        (case erase c first of
           Inl e \<Rightarrow> Some (Inl e)
         | Inr (c', first') \<Rightarrow> erase_range c' first' lst)
      else Some (Inr (c, first)))"

declare erase_range.simps [code]

subsection \<open>Construction from a range\<close>

text \<open>
  The range constructor: \<open>for (; first != last; ++first) push_back(*first)\<close> on a
  default-constructed container; the input range is the list of the values it yields.
\<close>

fun push_back_range :: "nat \<Rightarrow> 'a unrolled_list \<Rightarrow> 'a list \<Rightarrow> error + 'a unrolled_list" where
  "push_back_range NodeMaxSize c [] = Inr c"
| "push_back_range NodeMaxSize c (x # xs) =
     (case push_back NodeMaxSize c x of
        Inl e \<Rightarrow> Inl e
      | Inr c' \<Rightarrow> push_back_range NodeMaxSize c' xs)"

definition unrolled_list_range :: "nat \<Rightarrow> 'a list \<Rightarrow> error + 'a unrolled_list" where
  "unrolled_list_range NodeMaxSize xs = push_back_range NodeMaxSize unrolled_list_default xs"

subsection \<open>Traversal\<close>

text \<open>
  Forward traversal, as a range-based \<open>for\<close> does it:
  \<open>for (it = begin(); it != end(); ++it) out.push_back(*it)\<close>.
\<close>

partial_function (option) traverse_loop ::
  "'a unrolled_list \<Rightarrow> iterator_impl \<Rightarrow> 'a list \<Rightarrow> (error + 'a list) option" where
  "traverse_loop c it out =
     (if it \<noteq> cend then
        (case deref c it of
           Inl e \<Rightarrow> Some (Inl e)
         | Inr x \<Rightarrow>
             (case increment c it of
                Inl e \<Rightarrow> Some (Inl e)
              | Inr it' \<Rightarrow> traverse_loop c it' (out @ [x])))
      else Some (Inr out))"

declare traverse_loop.simps [code]

definition traverse :: "'a unrolled_list \<Rightarrow> (error + 'a list) option" where
  "traverse c = traverse_loop c (cbegin c) []"

text \<open>
  The number of positions between \<open>begin()\<close> and \<open>end()\<close>, as \<open>std::distance\<close>
  counts them: \<open>for (it = begin(); it != end(); ++it) ++n\<close>.
\<close>

partial_function (option) distance_loop ::
  "'a unrolled_list \<Rightarrow> iterator_impl \<Rightarrow> nat \<Rightarrow> (error + nat) option" where
  "distance_loop c it n =
     (if it \<noteq> cend then
        (case increment c it of
           Inl e \<Rightarrow> Some (Inl e)
         | Inr it' \<Rightarrow> distance_loop c it' (n + 1))
      else Some (Inr n))"

declare distance_loop.simps [code]

definition distance_begin_end :: "'a unrolled_list \<Rightarrow> (error + nat) option" where
  "distance_begin_end c = distance_loop c (cbegin c) 0"

text \<open>
  Reverse traversal through \<open>std::reverse_iterator\<close>, which wraps an iterator
  \<open>current\<close>: \<open>rbegin()\<close> wraps \<open>end()\<close>, \<open>rend()\<close> wraps \<open>begin()\<close>, \<open>*r\<close> is
  \<open>{ tmp = current; --tmp; return *tmp; }\<close> and \<open>++r\<close> is \<open>--current\<close>. The loop is
  \<open>for (r = rbegin(); r != rend(); ++r) out.push_back(*r)\<close>.
\<close>

definition rbegin :: "'a unrolled_list \<Rightarrow> iterator_impl" where
  "rbegin c = cend"

definition rend :: "'a unrolled_list \<Rightarrow> iterator_impl" where
  "rend c = cbegin c"

definition reverse_deref :: "'a unrolled_list \<Rightarrow> iterator_impl \<Rightarrow> error + 'a" where
  "reverse_deref c current =
     (case decrement c current of Inl e \<Rightarrow> Inl e | Inr tmp \<Rightarrow> deref c tmp)"

partial_function (option) reverse_traverse_loop ::
  "'a unrolled_list \<Rightarrow> iterator_impl \<Rightarrow> 'a list \<Rightarrow> (error + 'a list) option" where
  "reverse_traverse_loop c current out =
     (if current \<noteq> rend c then
        (case reverse_deref c current of
           Inl e \<Rightarrow> Some (Inl e)
         | Inr x \<Rightarrow>
             (case decrement c current of
                Inl e \<Rightarrow> Some (Inl e)
              | Inr current' \<Rightarrow> reverse_traverse_loop c current' (out @ [x])))
      else Some (Inr out))"

declare reverse_traverse_loop.simps [code]

definition reverse_traverse :: "'a unrolled_list \<Rightarrow> (error + 'a list) option" where
  "reverse_traverse c = reverse_traverse_loop c (rbegin c) []"

subsection \<open>Comparison\<close>

text \<open>
  \<open>std::equal(first1, last1, first2)\<close>:
  \<open>for (; first1 != last1; ++first1, ++first2) if (!(*first1 == *first2)) return false;
  return true;\<close>. The two ranges belong to two containers.
\<close>

partial_function (option) std_equal ::
  "'a unrolled_list \<Rightarrow> iterator_impl \<Rightarrow> iterator_impl \<Rightarrow> 'a unrolled_list \<Rightarrow> iterator_impl \<Rightarrow>
     (error + bool) option" where
  "std_equal c1 first1 last1 c2 first2 =
     (if first1 \<noteq> last1 then
        (case deref c1 first1 of
           Inl e \<Rightarrow> Some (Inl e)
         | Inr x \<Rightarrow>
             (case deref c2 first2 of
                Inl e \<Rightarrow> Some (Inl e)
              | Inr y \<Rightarrow>
                  (if x \<noteq> y then Some (Inr False)
                   else
                     (case increment c1 first1 of
                        Inl e \<Rightarrow> Some (Inl e)
                      | Inr first1' \<Rightarrow>
                          (case increment c2 first2 of
                             Inl e \<Rightarrow> Some (Inl e)
                           | Inr first2' \<Rightarrow> std_equal c1 first1' last1 c2 first2')))))
      else Some (Inr True))"

declare std_equal.simps [code]

definition operator_eq :: "'a unrolled_list \<Rightarrow> 'a unrolled_list \<Rightarrow> (error + bool) option" where
  "operator_eq lhs rhs =
     (if size_ul lhs \<noteq> size_ul rhs then Some (Inr False)
      else std_equal lhs (cbegin lhs) cend rhs (cbegin rhs))"

definition operator_neq :: "'a unrolled_list \<Rightarrow> 'a unrolled_list \<Rightarrow> (error + bool) option" where
  "operator_neq lhs rhs = map_option (map_sum id Not) (operator_eq lhs rhs)"

section \<open>Well-formed lists\<close>

text \<open>
  The invariant of the representation that the operations are meant to maintain.
  \<open>contents\<close> is the run of live elements of a node. A node of a well-formed list holds
  at least one element and at most \<open>NodeMaxSize\<close>, in a buffer of \<open>NodeMaxSize\<close> slots
  whose first \<open>size\<close> slots are live.
\<close>

definition contents :: "'a Node \<Rightarrow> 'a list" where
  "contents n = map the (take (nsize n) (data n))"

definition node_ok :: "nat \<Rightarrow> 'a Node \<Rightarrow> bool" where
  "node_ok NodeMaxSize n =
     (0 < nsize n \<and> nsize n \<le> NodeMaxSize \<and> length (data n) = NodeMaxSize
      \<and> list_all (\<lambda>s. s \<noteq> None) (take (nsize n) (data n)))"

text \<open>
  \<open>chain h pv p as\<close>: following \<open>next\<close> from the pointer \<open>p\<close> visits exactly the
  addresses \<open>as\<close> and ends in \<open>nullptr\<close>, and every \<open>prev\<close> points back to the node
  before (\<open>pv\<close> for the first one).
\<close>

fun chain :: "'a store \<Rightarrow> addr option \<Rightarrow> addr option \<Rightarrow> addr list \<Rightarrow> bool" where
  "chain h pv p [] = (p = None)"
| "chain h pv p (a # as) =
     (p = Some a \<and>
      (case lookup h a of None \<Rightarrow> False | Some n \<Rightarrow> prev n = pv \<and> chain h (Some a) (next n) as))"

text \<open>Every node of the chain is well-formed; the sum of the node sizes; the elements in order.\<close>

definition nodes_ok :: "nat \<Rightarrow> 'a store \<Rightarrow> addr list \<Rightarrow> bool" where
  "nodes_ok NodeMaxSize h as =
     list_all (\<lambda>a. case lookup h a of None \<Rightarrow> False | Some n \<Rightarrow> node_ok NodeMaxSize n) as"

definition total_of :: "'a store \<Rightarrow> addr list \<Rightarrow> nat" where
  "total_of h as = sum_list (map (\<lambda>a. case lookup h a of None \<Rightarrow> 0 | Some n \<Rightarrow> nsize n) as)"

definition elems_of :: "'a store \<Rightarrow> addr list \<Rightarrow> 'a list" where
  "elems_of h as = concat (map (\<lambda>a. case lookup h a of None \<Rightarrow> [] | Some n \<Rightarrow> contents n) as)"

text \<open>
  \<open>wf NodeMaxSize c as\<close>: head and tail delimit the chain \<open>as\<close> of distinct nodes (both
  absent when there is none), no node of the chain is empty, and \<open>size_\<close> is the number
  of elements.
\<close>

definition wf :: "nat \<Rightarrow> 'a unrolled_list \<Rightarrow> addr list \<Rightarrow> bool" where
  "wf NodeMaxSize c as =
     (chain (heap c) None (head c) as \<and> distinct as
      \<and> tail c = (if as = [] then None else Some (last as))
      \<and> nodes_ok NodeMaxSize (heap c) as
      \<and> size_m c = total_of (heap c) as)"

definition elems :: "'a unrolled_list \<Rightarrow> addr list \<Rightarrow> 'a list" where
  "elems c as = elems_of (heap c) as"

text \<open>
  \<open>pos_in h as it r\<close>: the iterator \<open>it\<close> is \<open>end()\<close> and \<open>r\<close> is empty, or \<open>it\<close>
  addresses an element of a node of \<open>as\<close> and \<open>r\<close> lists the elements from there on.
\<close>

fun pos_in :: "'a store \<Rightarrow> addr list \<Rightarrow> iterator_impl \<Rightarrow> 'a list \<Rightarrow> bool" where
  "pos_in h [] it r = (it = cend \<and> r = [])"
| "pos_in h (a # as) it r =
     ((current_node it = Some a \<and>
       (case lookup h a of
          None \<Rightarrow> False
        | Some n \<Rightarrow> current_pos it < nsize n \<and> r = drop (current_pos it) (contents n) @ elems_of h as))
      \<or> pos_in h as it r)"

text \<open>Two stores agree at an address on \<open>size\<close> and \<open>data\<close> (the links may differ).\<close>

definition same_payload :: "'a store \<Rightarrow> 'a store \<Rightarrow> addr \<Rightarrow> bool" where
  "same_payload h h' b =
     (case lookup h b of
        None \<Rightarrow> lookup h' b = None
      | Some n \<Rightarrow> (case lookup h' b of None \<Rightarrow> False | Some n' \<Rightarrow> nsize n' = nsize n \<and> data n' = data n))"

section \<open>Running operations in sequence\<close>

text \<open>Sequencing of two steps: undefined behaviour in the first step ends the run.\<close>

definition ub_bind :: "error + 'a \<Rightarrow> ('a \<Rightarrow> error + 'b) \<Rightarrow> error + 'b" where
  "ub_bind m f = (case m of Inl e \<Rightarrow> Inl e | Inr x \<Rightarrow> f x)"

text \<open>\<open>std::next(it, n)\<close> on a bidirectional iterator: \<open>n\<close> increments.\<close>

fun std_next :: "'a unrolled_list \<Rightarrow> iterator_impl \<Rightarrow> nat \<Rightarrow> error + iterator_impl" where
  "std_next c it 0 = Inr it"
| "std_next c it (Suc n) =
     (case increment c it of Inl e \<Rightarrow> Inl e | Inr it' \<Rightarrow> std_next c it' n)"

text \<open>The demonstration program of \<open>src/bin/main.cpp\<close>, on \<open>unrolled_list<int>\<close>.\<close>

definition scenario_pushes :: "error + int unrolled_list" where
  "scenario_pushes =
     ub_bind (push_back 10 unrolled_list_default 1) (\<lambda>c.
     ub_bind (push_back 10 c 2) (\<lambda>c.
     ub_bind (push_back 10 c 3) (\<lambda>c.
     push_front 10 c 0)))"

definition scenario_insert :: "error + int unrolled_list" where
  "scenario_insert =
     ub_bind scenario_pushes (\<lambda>c.
     ub_bind (std_next c (cbegin c) 1) (\<lambda>it.
     map_sum id fst (insert_ul 10 c it 10)))"

definition scenario_erase :: "error + int unrolled_list" where
  "scenario_erase =
     ub_bind scenario_insert (\<lambda>c.
     ub_bind (std_next c (cbegin c) 2) (\<lambda>it.
     map_sum id fst (erase c it)))"

text \<open>\<open>push_back(1); pop_back();\<close> on a default-constructed list.\<close>

definition pushed_then_popped :: "error + int unrolled_list" where
  "pushed_then_popped = ub_bind (push_back 10 unrolled_list_default 1) pop_back"

text \<open>\<open>push_back(1); pop_front();\<close> on a default-constructed list.\<close>

definition pushed_then_popped_front :: "error + int unrolled_list" where
  "pushed_then_popped_front = ub_bind (push_back 10 unrolled_list_default 1) pop_front"

text \<open>
  With \<open>NodeMaxSize = 2\<close>: the list built from \<open>1, 2, 3\<close> (nodes \<open>[1, 2]\<close> and \<open>[3]\<close>),
  then \<open>erase(begin())\<close> twice.
\<close>

definition head_drained :: "error + int unrolled_list" where
  "head_drained =
     ub_bind (unrolled_list_range 2 [1, 2, 3]) (\<lambda>c.
     ub_bind (erase c (cbegin c)) (\<lambda>(c, it).
     map_sum id fst (erase c (cbegin c))))"

text \<open>
  Lists used as concrete inputs below. With \<open>NodeMaxSize = 2\<close>: the list built from
  \<open>1, 2, 3\<close> and the list built from \<open>7\<close>. With \<open>NodeMaxSize = 5\<close>: the list built
  from \<open>1, 2, 3, 4, 5\<close>, whose only node is full.
\<close>

definition two_nodes :: "int unrolled_list" where
  "two_nodes =
     \<lparr>head = Some 0, tail = Some 1, size_m = 3,
      heap = [Some \<lparr>nsize = 2, next = Some 1, prev = None, data = [Some 1, Some 2]\<rparr>,
              Some \<lparr>nsize = 1, next = None, prev = Some 0, data = [Some 3, None]\<rparr>]\<rparr>"

definition one_node :: "int unrolled_list" where
  "one_node =
     \<lparr>head = Some 0, tail = Some 0, size_m = 1,
      heap = [Some \<lparr>nsize = 1, next = None, prev = None, data = [Some 7, None]\<rparr>]\<rparr>"

definition full_node :: "int unrolled_list" where
  "full_node =
     \<lparr>head = Some 0, tail = Some 0, size_m = 5,
      heap = [Some \<lparr>nsize = 5, next = None, prev = None,
                    data = [Some 1, Some 2, Some 3, Some 4, Some 5]\<rparr>]\<rparr>"

text \<open>
  With \<open>NodeMaxSize = 3\<close>: the list built from \<open>1, 2, 3\<close> (one full node), then
  \<open>insert(begin(), 7)\<close>. With \<open>NodeMaxSize = 1\<close>: the list built from \<open>1\<close>, then
  \<open>insert(begin(), 7)\<close>.
\<close>

definition split_of_three :: "error + (int unrolled_list \<times> iterator_impl)" where
  "split_of_three = ub_bind (unrolled_list_range 3 [1, 2, 3]) (\<lambda>c. emplace 3 c (cbegin c) 7)"

definition split_of_one :: "error + (int unrolled_list \<times> iterator_impl)" where
  "split_of_one = ub_bind (unrolled_list_range 1 [1]) (\<lambda>c. emplace 1 c (cbegin c) 7)"

section \<open>Supporting lemmas\<close>

subsection \<open>The store\<close>

lemma lookup_upd: "lookup (h[a := x]) b = (if a = b \<and> a < length h then x else lookup h b)"
  by (simp add: lookup_def)

lemma lookup_app: "lookup (h @ [x]) b = (if b = length h then x else lookup h b)"
  by (simp add: lookup_def nth_append)

lemma lookup_lt: "lookup h a = Some n \<Longrightarrow> a < length h"
  by (simp add: lookup_def split: if_splits)

lemma elems_of_Nil [simp]: "elems_of h [] = []"
  by (simp add: elems_of_def)

lemma elems_of_Cons: "lookup h a = Some n \<Longrightarrow> elems_of h (a # as) = contents n @ elems_of h as"
  by (simp add: elems_of_def)

lemma nodes_ok_Cons:
  "nodes_ok m h (a # as) = ((case lookup h a of None \<Rightarrow> False | Some n \<Rightarrow> node_ok m n) \<and> nodes_ok m h as)"
  by (simp add: nodes_ok_def)

lemma length_contents: "node_ok m n \<Longrightarrow> length (contents n) = nsize n"
  by (simp add: node_ok_def contents_def)

lemma contents_nth:
  "node_ok m n \<Longrightarrow> k < nsize n \<Longrightarrow> data n ! k = Some (contents n ! k)"
  by (auto simp: node_ok_def contents_def list_all_length)

lemma length_elems_of: "nodes_ok m h as \<Longrightarrow> length (elems_of h as) = total_of h as"
  by (induction as) (auto simp: nodes_ok_Cons elems_of_def total_of_def length_contents split: option.splits)

lemma pos_in_begin:
  "chain h pv p as \<Longrightarrow> nodes_ok m h as \<Longrightarrow> pos_in h as \<lparr>current_node = p, current_pos = 0\<rparr> (elems_of h as)"
  by (cases as) (auto simp: cend_def nodes_ok_Cons node_ok_def elems_of_Cons split: option.splits)

lemma pos_in_Nil:
  "nodes_ok m h as \<Longrightarrow> pos_in h as it [] \<Longrightarrow> it = cend"
  by (induction as) (auto simp: nodes_ok_Cons length_contents split: option.splits dest: length_contents)

lemma pos_in_step:
  "chain (heap c) pv p as \<Longrightarrow> nodes_ok m (heap c) as \<Longrightarrow> pos_in (heap c) as it (x # r) \<Longrightarrow>
   it \<noteq> cend \<and> deref c it = Inr x \<and> (\<exists>it'. increment c it = Inr it' \<and> pos_in (heap c) as it' r)"
proof (induction as arbitrary: pv p)
  case Nil
  then show ?case by simp
next
  case (Cons a as)
  from Cons.prems obtain n where n: "lookup (heap c) a = Some n" "node_ok m n"
    and ch: "chain (heap c) (Some a) (next n) as" and ok: "nodes_ok m (heap c) as"
    by (auto simp: nodes_ok_Cons split: option.splits)
  show ?case
  proof (cases "current_node it = Some a \<and> current_pos it < nsize n
                 \<and> x # r = drop (current_pos it) (contents n) @ elems_of (heap c) as")
    case True
    let ?k = "current_pos it"
    have len: "length (contents n) = nsize n" using n by (simp add: length_contents)
    have dr: "drop ?k (contents n) = contents n ! ?k # drop (Suc ?k) (contents n)"
      using True len by (simp add: Cons_nth_drop_Suc)
    have x: "x = contents n ! ?k" and r: "r = drop (Suc ?k) (contents n) @ elems_of (heap c) as"
      using True dr by auto
    have d: "deref c it = Inr x"
      using True n x contents_nth[OF n(2), of ?k]
      by (simp add: deref_def node_at_def node_ok_def)
    have ne: "it \<noteq> cend" using True by (auto simp: cend_def)
    show ?thesis
    proof (cases "?k + 1 < nsize n")
      case T2: True
      then have "increment c it = Inr (it\<lparr>current_pos := ?k + 1\<rparr>)"
        using True n by (simp add: increment_def node_at_def)
      moreover have "pos_in (heap c) (a # as) (it\<lparr>current_pos := ?k + 1\<rparr>) r"
        using True n T2 r by simp
      ultimately show ?thesis using d ne by blast
    next
      case False
      then have inc: "increment c it = Inr \<lparr>current_node = next n, current_pos = 0\<rparr>"
        using True n by (simp add: increment_def node_at_def)
      have r2: "r = elems_of (heap c) as" using r False len by simp
      have "pos_in (heap c) as \<lparr>current_node = next n, current_pos = 0\<rparr> r"
        unfolding r2 by (rule pos_in_begin[OF ch ok])
      then show ?thesis using d ne inc by simp
    qed
  next
    case False
    then have "pos_in (heap c) as it (x # r)" using Cons.prems(3) n by auto
    from Cons.IH[OF ch ok this] show ?thesis by auto
  qed
qed

lemma traverse_loop_pos:
  "chain (heap c) pv p as \<Longrightarrow> nodes_ok m (heap c) as \<Longrightarrow> pos_in (heap c) as it r \<Longrightarrow>
   traverse_loop c it out = Some (Inr (out @ r))"
proof (induction r arbitrary: it out)
  case Nil
  then have "it = cend" by (auto dest: pos_in_Nil)
  then show ?case by (subst traverse_loop.simps) simp
next
  case (Cons x r)
  from pos_in_step[OF Cons.prems] obtain it' where
    s: "it \<noteq> cend" "deref c it = Inr x" "increment c it = Inr it'" "pos_in (heap c) as it' r"
    by blast
  from Cons.IH[OF Cons.prems(1,2) s(4)] s(1-3) show ?case
    by (subst traverse_loop.simps) simp
qed

lemma traverse_wf:
  assumes "wf m c as"
  shows "traverse c = Some (Inr (elems c as))"
proof -
  have ch: "chain (heap c) None (head c) as" and ok: "nodes_ok m (heap c) as"
    using assms by (simp_all add: wf_def)
  have "pos_in (heap c) as (cbegin c) (elems_of (heap c) as)"
    unfolding cbegin_def by (rule pos_in_begin[OF ch ok])
  from traverse_loop_pos[OF ch ok this, of "[]"] show ?thesis
    by (simp add: traverse_def elems_def)
qed

lemma distance_loop_pos:
  "chain (heap c) pv p as \<Longrightarrow> nodes_ok m (heap c) as \<Longrightarrow> pos_in (heap c) as it r \<Longrightarrow>
   distance_loop c it k = Some (Inr (k + length r))"
proof (induction r arbitrary: it k)
  case Nil
  then have "it = cend" by (auto dest: pos_in_Nil)
  then show ?case by (subst distance_loop.simps) simp
next
  case (Cons x r)
  from pos_in_step[OF Cons.prems] obtain it' where
    s: "it \<noteq> cend" "deref c it = Inr x" "increment c it = Inr it'" "pos_in (heap c) as it' r"
    by blast
  from Cons.IH[OF Cons.prems(1,2) s(4)] s(1-3) show ?case
    by (subst distance_loop.simps) simp
qed

lemma std_equal_pos:
  "chain (heap c1) pv1 p1 as1 \<Longrightarrow> nodes_ok m (heap c1) as1 \<Longrightarrow> pos_in (heap c1) as1 it1 r1 \<Longrightarrow>
   chain (heap c2) pv2 p2 as2 \<Longrightarrow> nodes_ok m (heap c2) as2 \<Longrightarrow> pos_in (heap c2) as2 it2 r2 \<Longrightarrow>
   length r1 = length r2 \<Longrightarrow>
   std_equal c1 it1 cend c2 it2 = Some (Inr (r1 = r2))"
proof (induction r1 arbitrary: it1 it2 r2)
  case Nil
  then have "it1 = cend" by (auto dest: pos_in_Nil)
  then show ?case using Nil by (subst std_equal.simps) simp
next
  case (Cons x r)
  from Cons.prems(7) obtain y r' where r2: "r2 = y # r'" by (cases r2) auto
  from pos_in_step[OF Cons.prems(1-3)] obtain it1' where
    s: "it1 \<noteq> cend" "deref c1 it1 = Inr x" "increment c1 it1 = Inr it1'" "pos_in (heap c1) as1 it1' r"
    by blast
  from pos_in_step[OF Cons.prems(4,5) Cons.prems(6)[unfolded r2]] obtain it2' where
    t: "deref c2 it2 = Inr y" "increment c2 it2 = Inr it2'" "pos_in (heap c2) as2 it2' r'"
    by blast
  have len: "length r = length r'" using Cons.prems(7) r2 by simp
  from Cons.IH[OF Cons.prems(1,2) s(4) Cons.prems(4,5) t(3) len] s(1-3) t(1,2) r2 show ?case
    by (subst std_equal.simps) simp
qed

subsection \<open>Shifting inside a node\<close>

lemma insert_loop_spec:
  "pos \<le> i \<Longrightarrow> i < length d \<Longrightarrow> (\<forall>j. pos \<le> j \<and> j < i \<longrightarrow> d ! j \<noteq> None) \<Longrightarrow>
   \<exists>d'. insert_loop i pos d = Inr d' \<and> length d' = length d
        \<and> (\<forall>j < length d. d' ! j = (if pos < j \<and> j \<le> i then d ! (j - 1) else d ! j))"
proof (induction i pos d rule: insert_loop.induct)
  case (1 i pos d)
  show ?case
  proof (cases "pos < i")
    case False
    then show ?thesis using "1.prems" by (subst insert_loop.simps) auto
  next
    case True
    then have "pos \<le> i - 1 \<and> i - 1 < i" by arith
    then obtain x where x: "d ! (i - 1) = Some x"
      using "1.prems"(3) by blast
    let ?d1 = "d[i := Some x]"
    have p: "pos \<le> i - 1" "i - 1 < length ?d1"
      "\<forall>j. pos \<le> j \<and> j < i - 1 \<longrightarrow> ?d1 ! j \<noteq> None"
      using True "1.prems" by auto
    from "1.IH"[OF True "1.prems"(2) x p] obtain d' where
      d': "insert_loop (i - 1) pos ?d1 = Inr d'" "length d' = length ?d1"
      "\<forall>j < length ?d1. d' ! j = (if pos < j \<and> j \<le> i - 1 then ?d1 ! (j - 1) else ?d1 ! j)"
      by blast
    have eq: "insert_loop i pos d = Inr d'"
      using True "1.prems"(2) x d'(1) by (subst insert_loop.simps) simp
    have "\<forall>j < length d. d' ! j = (if pos < j \<and> j \<le> i then d ! (j - 1) else d ! j)"
    proof (intro allI impI)
      fix j assume j: "j < length d"
      show "d' ! j = (if pos < j \<and> j \<le> i then d ! (j - 1) else d ! j)"
        using d'(3)[rule_format, of j] j x True "1.prems"(2)
        by (cases "j = i") (auto simp: nth_list_update)
    qed
    then show ?thesis using eq d'(2) by simp
  qed
qed

lemma Node_insert_spec:
  assumes "nsize n < length (data n)" "pos \<le> nsize n"
    "list_all (\<lambda>s. s \<noteq> None) (take (nsize n) (data n))"
  shows "\<exists>n'. Node_insert n pos v = Inr n' \<and> nsize n' = nsize n + 1
          \<and> next n' = next n \<and> prev n' = prev n \<and> length (data n') = length (data n)
          \<and> list_all (\<lambda>s. s \<noteq> None) (take (nsize n') (data n'))
          \<and> contents n' = take pos (contents n) @ v # drop pos (contents n)"
proof -
  let ?d = "data n" and ?s = "nsize n"
  have live: "\<forall>j. j < ?s \<longrightarrow> ?d ! j \<noteq> None"
    using assms(1,3) by (auto simp: list_all_length)
  then have "\<forall>j. pos \<le> j \<and> j < ?s \<longrightarrow> ?d ! j \<noteq> None" by simp
  from insert_loop_spec[OF assms(2,1) this] obtain d' where
    d': "insert_loop ?s pos ?d = Inr d'" "length d' = length ?d"
    "\<forall>j < length ?d. d' ! j = (if pos < j \<and> j \<le> ?s then ?d ! (j - 1) else ?d ! j)"
    by blast
  let ?n' = "n\<lparr>data := d'[pos := Some v], nsize := ?s + 1\<rparr>"
  have r: "Node_insert n pos v = Inr ?n'"
    using d'(1,2) assms(1,2) by (simp add: Node_insert_def)
  have nth: "\<And>j. j < ?s + 1 \<Longrightarrow>
      (d'[pos := Some v]) ! j = (if j = pos then Some v else if j < pos then ?d ! j else ?d ! (j - 1))"
    using d'(2,3) assms(1,2) by (auto simp: nth_list_update)
  have l: "list_all (\<lambda>s. s \<noteq> None) (take (nsize ?n') (data ?n'))"
    using nth live d'(2) assms(1,2) by (auto simp: list_all_length)
  have c: "contents ?n' = take pos (contents n) @ v # drop pos (contents n)"
  proof (rule nth_equalityI)
    show "length (contents ?n') = length (take pos (contents n) @ v # drop pos (contents n))"
      using assms(1,2) d'(2) by (simp add: contents_def)
  next
    fix j assume "j < length (contents ?n')"
    then have j: "j < ?s + 1" using assms(1) d'(2) by (simp add: contents_def)
    consider "j < pos" | "j = pos" | "pos < j" by arith
    then show "contents ?n' ! j = (take pos (contents n) @ v # drop pos (contents n)) ! j"
    proof cases
      case 1
      then show ?thesis using j nth[OF j] assms(1,2) d'(2)
        by (simp add: contents_def nth_append)
    next
      case 2
      then show ?thesis using j nth[OF j] assms(1,2) d'(2)
        by (simp add: contents_def nth_append)
    next
      case 3
      then have a: "pos + (j - Suc pos) = j - 1" "j - pos = Suc (j - Suc pos)" "j - 1 < ?s"
        using j by arith+
      show ?thesis using 3 j nth[OF j] assms(1,2) d'(2) a(1,3)
        by (simp add: contents_def nth_append a(2))
    qed
  qed
  show ?thesis using r l c d'(2) by (intro exI[of _ ?n']) simp
qed

lemma split_loop_spec:
  "i \<le> m \<Longrightarrow> m \<le> length (data nd) \<Longrightarrow> (\<forall>j. i \<le> j \<and> j < m \<longrightarrow> data nd ! j \<noteq> None) \<Longrightarrow>
   nsize nn + (m - i) \<le> length (data nn) \<Longrightarrow>
   \<exists>nd' nn'. split_loop i m nd nn = Inr (nd', nn')
      \<and> next nd' = next nd \<and> prev nd' = prev nd \<and> length (data nd') = length (data nd)
      \<and> (\<forall>j < i. data nd' ! j = data nd ! j)
      \<and> next nn' = next nn \<and> prev nn' = prev nn \<and> length (data nn') = length (data nn)
      \<and> (\<forall>j < nsize nn. data nn' ! j = data nn ! j)
      \<and> (\<forall>j < m - i. data nn' ! (nsize nn + j) = data nd ! (i + j))"
proof (induction i m nd nn rule: split_loop.induct)
  case (1 i m nd nn)
  show ?case
  proof (cases "i < m")
    case False
    then show ?thesis by (subst split_loop.simps) simp
  next
    case True
    then obtain x where x: "data nd ! i = Some x" using "1.prems"(3) by auto
    have il: "i < length (data nd)" using True "1.prems"(2) by simp
    let ?nn1 = "nn\<lparr>data := (data nn)[nsize nn := Some x], nsize := nsize nn + 1\<rparr>"
    let ?nd1 = "nd\<lparr>data := (data nd)[i := None]\<rparr>"
    have e: "Node_emplace_back nn x = Inr ?nn1"
      using True "1.prems"(4) by (simp add: Node_emplace_back_def)
    have p: "i + 1 \<le> m" "m \<le> length (data ?nd1)"
      "\<forall>j. i + 1 \<le> j \<and> j < m \<longrightarrow> data ?nd1 ! j \<noteq> None"
      "nsize ?nn1 + (m - (i + 1)) \<le> length (data ?nn1)"
      using True "1.prems" by auto
    from "1.IH"[OF True il x e p] obtain nd' nn' where
      r: "split_loop (i + 1) m ?nd1 ?nn1 = Inr (nd', nn')"
      "next nd' = next nd" "prev nd' = prev nd" "length (data nd') = length (data nd)"
      "\<forall>j < i + 1. data nd' ! j = data ?nd1 ! j"
      "next nn' = next nn" "prev nn' = prev nn" "length (data nn') = length (data nn)"
      "\<forall>j < nsize ?nn1. data nn' ! j = data ?nn1 ! j"
      "\<forall>j < m - (i + 1). data nn' ! (nsize ?nn1 + j) = data ?nd1 ! (i + 1 + j)"
      by auto
    have eq: "split_loop i m nd nn = Inr (nd', nn')"
      using True il x e r(1) by (subst split_loop.simps) simp
    have a: "\<forall>j < i. data nd' ! j = data nd ! j"
      using r(5) by auto
    have b: "\<forall>j < m - i. data nn' ! (nsize nn + j) = data nd ! (i + j)"
    proof (intro allI impI)
      fix j assume j: "j < m - i"
      show "data nn' ! (nsize nn + j) = data nd ! (i + j)"
      proof (cases j)
        case 0
        have "nsize nn < length (data nn)" using True "1.prems"(4) by arith
        then show ?thesis using r(9)[rule_format, of "nsize nn"] x 0 by simp
      next
        case (Suc k)
        then have "k < m - (i + 1)" using j by arith
        from r(10)[rule_format, OF this] show ?thesis using Suc by simp
      qed
    qed
    have c: "\<forall>j < nsize nn. data nn' ! j = data nn ! j"
      using r(9) by auto
    show ?thesis using eq r(2,3,4,6,7,8) a b c by blast
  qed
qed

lemma map_the_take_eqI:
  "length xs = k \<Longrightarrow> k \<le> length d \<Longrightarrow> (\<forall>j < k. d ! j = Some (xs ! j)) \<Longrightarrow> map the (take k d) = xs"
  by (rule nth_equalityI) auto

lemma create_node_after:
  assumes "lookup (heap c) a = Some n"
    and "case nx of None \<Rightarrow> True | Some q \<Rightarrow> lookup (heap c) q \<noteq> None"
  shows "\<exists>c1 n1. create_node m c (Some a) nx = Inr (c1, length (heap c))
           \<and> size_m c1 = size_m c \<and> length (heap c1) = length (heap c) + 1
           \<and> lookup (heap c1) a = Some n1 \<and> data n1 = data n \<and> nsize n1 = nsize n
           \<and> next n1 = Some (length (heap c))
           \<and> lookup (heap c1) (length (heap c))
               = Some \<lparr>nsize = 0, next = nx, prev = Some a, data = replicate m None\<rparr>"
proof -
  have al: "a < length (heap c)" using assms(1) by (rule lookup_lt)
  show ?thesis
  proof (cases nx)
    case None
    then show ?thesis using assms(1) al
      by (simp add: create_node_def assign_next_def lookup_app lookup_upd Let_def)
  next
    case (Some q)
    then obtain nq where nq: "lookup (heap c) q = Some nq" using assms(2) by auto
    have ql: "q < length (heap c)" using nq by (rule lookup_lt)
    show ?thesis
    proof (cases "q = a")
      case True
      then show ?thesis using Some assms(1) al
        by (simp add: create_node_def assign_next_def assign_prev_def lookup_app lookup_upd Let_def)
    next
      case False
      then show ?thesis using Some assms(1) al nq ql
        by (simp add: create_node_def assign_next_def assign_prev_def lookup_app lookup_upd Let_def)
    qed
  qed
qed

subsection \<open>Chains under updates of the store\<close>

lemma chain_lookup: "chain h pv p as \<Longrightarrow> a \<in> set as \<Longrightarrow> \<exists>n. lookup h a = Some n"
  by (induction as arbitrary: pv p) (auto split: option.splits)

lemma chain_cong:
  "(\<forall>a \<in> set as. lookup h' a = lookup h a) \<Longrightarrow> chain h' pv p as = chain h pv p as"
  by (induction as arbitrary: pv p) (auto split: option.splits)

lemma nodes_ok_cong:
  "(\<forall>a \<in> set as. lookup h' a = lookup h a) \<Longrightarrow> nodes_ok m h' as = nodes_ok m h as"
  by (simp add: nodes_ok_def list_all_iff)

lemma total_of_cong:
  "(\<forall>a \<in> set as. lookup h' a = lookup h a) \<Longrightarrow> total_of h' as = total_of h as"
  by (induction as) (auto simp: total_of_def)

lemma elems_of_cong:
  "(\<forall>a \<in> set as. lookup h' a = lookup h a) \<Longrightarrow> elems_of h' as = elems_of h as"
  by (induction as) (auto simp: elems_of_def)

lemma total_of_append: "total_of h (xs @ ys) = total_of h xs + total_of h ys"
  by (simp add: total_of_def)

lemma elems_of_append: "elems_of h (xs @ ys) = elems_of h xs @ elems_of h ys"
  by (simp add: elems_of_def)

lemma nodes_ok_append: "nodes_ok m h (xs @ ys) = (nodes_ok m h xs \<and> nodes_ok m h ys)"
  by (simp add: nodes_ok_def)

lemma total_of_single: "lookup h a = Some n \<Longrightarrow> total_of h [a] = nsize n"
  by (simp add: total_of_def)

lemma elems_of_single: "lookup h a = Some n \<Longrightarrow> elems_of h [a] = contents n"
  by (simp add: elems_of_def)

lemma nodes_ok_single: "lookup h a = Some n \<Longrightarrow> nodes_ok m h [a] = node_ok m n"
  by (simp add: nodes_ok_def)

text \<open>The chain up to and after a node.\<close>

lemma chain_split:
  "chain h pv p (xs @ a # ys) \<Longrightarrow>
   \<exists>n. lookup h a = Some n \<and> prev n = (if xs = [] then pv else Some (last xs))
        \<and> chain h (Some a) (next n) ys
        \<and> (xs \<noteq> [] \<longrightarrow> (\<exists>l. lookup h (last xs) = Some l \<and> next l = Some a))"
proof (induction xs arbitrary: pv p)
  case Nil
  then show ?case by (auto split: option.splits)
next
  case (Cons x xs)
  from Cons.prems obtain nx where nx: "lookup h x = Some nx" "prev nx = pv"
    "chain h (Some x) (next nx) (xs @ a # ys)"
    by (auto split: option.splits)
  from Cons.IH[OF nx(3)] obtain n where n: "lookup h a = Some n"
    "prev n = (if xs = [] then Some x else Some (last xs))" "chain h (Some a) (next n) ys"
    "xs \<noteq> [] \<longrightarrow> (\<exists>l. lookup h (last xs) = Some l \<and> next l = Some a)"
    by blast
  show ?case
  proof (cases xs)
    case Nil
    then have "next nx = Some a" using nx(3) by simp
    then show ?thesis using n nx Nil by simp
  next
    case (Cons y zs)
    then show ?thesis using n by simp
  qed
qed

lemma chain_last:
  "chain h pv p as \<Longrightarrow> as \<noteq> [] \<Longrightarrow> \<exists>n. lookup h (last as) = Some n \<and> next n = None"
proof -
  assume c: "chain h pv p as" and ne: "as \<noteq> []"
  then obtain xs a where as: "as = xs @ [a]" by (metis append_butlast_last_id)
  from chain_split[of h pv p xs a "[]"] c as show ?thesis by auto
qed

text \<open>Changing only the payload of a node keeps the chain.\<close>

lemma chain_payload:
  "chain h pv p as \<Longrightarrow> lookup h a = Some n \<Longrightarrow> next n' = next n \<Longrightarrow> prev n' = prev n \<Longrightarrow>
   chain (h[a := Some n']) pv p as"
  by (induction as arbitrary: pv p) (auto simp: lookup_upd split: option.splits dest: lookup_lt)

text \<open>Appending a fresh node after the last one.\<close>

lemma chain_snoc:
  "chain h pv p as \<Longrightarrow> as \<noteq> [] \<Longrightarrow> distinct as \<Longrightarrow> lookup h (last as) = Some tn \<Longrightarrow>
   prev nn = Some (last as) \<Longrightarrow> next nn = None \<Longrightarrow>
   chain ((h @ [Some nn])[last as := Some (tn\<lparr>next := Some (length h)\<rparr>)]) pv p (as @ [length h])"
proof (induction as arbitrary: pv p)
  case Nil
  then show ?case by simp
next
  case (Cons a as)
  from Cons.prems(1) obtain n where n: "lookup h a = Some n" "prev n = pv" "p = Some a"
    "chain h (Some a) (next n) as"
    by (auto split: option.splits)
  have al: "a < length h" using n(1) by (rule lookup_lt)
  show ?case
  proof (cases as)
    case Nil
    then have "tn = n" using Cons.prems(4) n(1) by simp
    then show ?thesis using Nil n al Cons.prems(5,6)
      by (simp add: lookup_upd lookup_app)
  next
    case (Cons b bs)
    then have la: "last (a # as) = last as" "as \<noteq> []" by simp_all
    have ne: "a \<noteq> last as" using Cons.prems(3) la(2) by (metis distinct.simps(2) last_in_set)
    have "chain ((h @ [Some nn])[last as := Some (tn\<lparr>next := Some (length h)\<rparr>)])
            (Some a) (next n) (as @ [length h])"
      using Cons.IH[OF n(4) la(2)] Cons.prems(3,4,5,6) la by simp
    then show ?thesis using n al ne la
      by (simp add: lookup_upd lookup_app)
  qed
qed

subsection \<open>Appending keeps a list well-formed\<close>

lemma contents_emplace_back:
  "nsize n < length (data n) \<Longrightarrow>
   contents (n\<lparr>data := (data n)[nsize n := Some v], nsize := nsize n + 1\<rparr>) = contents n @ [v]"
  by (simp add: contents_def take_Suc_conv_app_nth)

lemma node_ok_emplace_back:
  "nsize n < m \<Longrightarrow> length (data n) = m \<Longrightarrow> list_all (\<lambda>s. s \<noteq> None) (take (nsize n) (data n)) \<Longrightarrow>
   node_ok m (n\<lparr>data := (data n)[nsize n := Some v], nsize := nsize n + 1\<rparr>)"
  by (simp add: node_ok_def take_Suc_conv_app_nth)

lemma total_of_Cons:
  "total_of h (a # as) = (case lookup h a of None \<Rightarrow> 0 | Some n \<Rightarrow> nsize n) + total_of h as"
  by (simp add: total_of_def)

lemma elems_of_Cons':
  "elems_of h (a # as) = (case lookup h a of None \<Rightarrow> [] | Some n \<Rightarrow> contents n) @ elems_of h as"
  by (simp add: elems_of_def)

lemma total_of_Nil [simp]: "total_of h [] = 0"
  by (simp add: total_of_def)

lemma nodes_ok_Nil [simp]: "nodes_ok m h []"
  by (simp add: nodes_ok_def)

lemma wf_Nil: "wf m c [] \<Longrightarrow> size_m c = 0 \<and> head c = None \<and> tail c = None"
  by (simp add: wf_def total_of_def)

lemma wf_size_pos:
  assumes "wf m c as" "as \<noteq> []"
  shows "0 < size_m c"
proof -
  obtain a bs where as: "as = a # bs" using assms(2) by (cases as) auto
  then obtain n where "lookup (heap c) a = Some n" "node_ok m n"
    using assms(1) by (auto simp: wf_def nodes_ok_Cons split: option.splits)
  then show ?thesis using assms(1) as by (simp add: wf_def total_of_def node_ok_def)
qed

lemma wf_tail:
  assumes "wf m c as" "as \<noteq> []"
  shows "\<exists>bs t tn. as = bs @ [t] \<and> t \<notin> set bs \<and> tail c = Some t \<and> lookup (heap c) t = Some tn
           \<and> node_ok m tn \<and> next tn = None"
proof -
  obtain bs t where as: "as = bs @ [t]" using assms(2) by (metis append_butlast_last_id)
  have ch: "chain (heap c) None (head c) as" using assms(1) by (simp add: wf_def)
  from chain_last[OF ch assms(2)] obtain tn where tn: "lookup (heap c) t = Some tn" "next tn = None"
    using as by auto
  have "node_ok m tn" using assms(1) as tn(1) by (simp add: wf_def nodes_ok_append nodes_ok_single)
  moreover have "t \<notin> set bs" "tail c = Some t" using assms(1) as by (simp_all add: wf_def)
  ultimately show ?thesis using as tn by blast
qed

lemma emplace_back_first:
  assumes "wf m c []" "0 < m"
  shows "\<exists>c'. emplace_back m c v = Inr c' \<and> wf m c' [length (heap c)]
           \<and> elems c' [length (heap c)] = [v]"
proof -
  obtain k where k: "m = Suc k" using assms(2) by (cases m) auto
  let ?tn = "\<lparr>nsize = 1, next = None, prev = None, data = (replicate m None)[0 := Some v]\<rparr>"
  let ?c' = "c\<lparr>head := Some (length (heap c)), tail := Some (length (heap c)),
              heap := (heap c @ [Some \<lparr>nsize = 0, next = None, prev = None, data = replicate m None\<rparr>])
                        [length (heap c) := Some ?tn],
              size_m := 1\<rparr>"
  have e: "emplace_back m c v = Inr ?c'"
    using wf_Nil[OF assms(1)] assms(2)
    by (simp add: emplace_back_def empty_ul_def create_node_def node_at_def lookup_app is_full_def
        Node_emplace_back_def Let_def)
  have lk: "lookup (heap ?c') (length (heap c)) = Some ?tn"
    by (simp add: lookup_upd lookup_app)
  have "wf m ?c' [length (heap c)]"
    using lk k by (simp add: wf_def nodes_ok_single total_of_single node_ok_def)
  moreover have "elems ?c' [length (heap c)] = [v]"
    using lk k by (simp add: elems_def elems_of_single contents_def)
  ultimately show ?thesis using e by blast
qed

lemma emplace_back_room:
  assumes "wf m c (bs @ [t])" "lookup (heap c) t = Some tn" "nsize tn < m"
  shows "\<exists>c'. emplace_back m c v = Inr c' \<and> wf m c' (bs @ [t])
           \<and> elems c' (bs @ [t]) = elems c (bs @ [t]) @ [v]"
proof -
  let ?tn' = "tn\<lparr>data := (data tn)[nsize tn := Some v], nsize := nsize tn + 1\<rparr>"
  let ?c' = "c\<lparr>size_m := size_m c + 1, heap := (heap c)[t := Some ?tn']\<rparr>"
  have tl: "tail c = Some t" "t \<notin> set bs" and ok: "node_ok m tn"
    using assms(1,2) by (simp_all add: wf_def nodes_ok_append nodes_ok_single)
  have pos: "0 < size_m c" using wf_size_pos[OF assms(1)] by simp
  have len: "nsize tn < length (data tn)" using ok assms(3) by (simp add: node_ok_def)
  have e: "emplace_back m c v = Inr ?c'"
    using pos tl assms(2,3) len
    by (simp add: emplace_back_def empty_ul_def node_at_def is_full_def Node_emplace_back_def)
  have tlt: "t < length (heap c)" using assms(2) by (rule lookup_lt)
  have lk: "lookup (heap ?c') t = Some ?tn'" using tlt by (simp add: lookup_upd)
  have same: "\<forall>a \<in> set bs. lookup ((heap c)[t := Some ?tn']) a = lookup (heap c) a"
    using tl(2) by (auto simp: lookup_upd)
  have ch: "chain (heap ?c') None (head ?c') (bs @ [t])"
    using chain_payload[of "heap c" None "head c" "bs @ [t]" t tn ?tn'] assms(1,2)
    by (simp add: wf_def)
  have ok': "node_ok m ?tn'"
    using ok assms(3) by (intro node_ok_emplace_back) (simp_all add: node_ok_def)
  have okb: "nodes_ok m ((heap c)[t := Some ?tn']) bs"
    using nodes_ok_cong[OF same, of m] assms(1) by (simp add: wf_def nodes_ok_append)
  have totb: "total_of ((heap c)[t := Some ?tn']) bs = total_of (heap c) bs"
    by (rule total_of_cong[OF same])
  have elb: "elems_of ((heap c)[t := Some ?tn']) bs = elems_of (heap c) bs"
    by (rule elems_of_cong[OF same])
  have "wf m ?c' (bs @ [t])"
    using ch assms(1,2) lk okb totb ok'
    by (simp add: wf_def nodes_ok_append nodes_ok_single total_of_append total_of_single)
  moreover have "elems ?c' (bs @ [t]) = elems c (bs @ [t]) @ [v]"
    using lk assms(2) len elb contents_emplace_back[OF len, of v]
    by (simp add: elems_def elems_of_append elems_of_single)
  ultimately show ?thesis using e by blast
qed

lemma emplace_back_full:
  assumes "wf m c (bs @ [t])" "lookup (heap c) t = Some tn" "nsize tn = m" "0 < m"
  shows "\<exists>c'. emplace_back m c v = Inr c' \<and> wf m c' (bs @ [t] @ [length (heap c)])
           \<and> elems c' (bs @ [t] @ [length (heap c)]) = elems c (bs @ [t]) @ [v]"
proof -
  obtain k where k: "m = Suc k" using assms(4) by (cases m) auto
  let ?new = "length (heap c)"
  let ?fresh = "\<lparr>nsize = 0, next = None, prev = Some t, data = replicate m None\<rparr> :: 'a Node"
  let ?nn = "\<lparr>nsize = 1, next = None, prev = Some t, data = (replicate m None)[0 := Some v]\<rparr>"
  let ?h1 = "(heap c @ [Some ?fresh])[t := Some (tn\<lparr>next := Some ?new\<rparr>)]"
  let ?c' = "c\<lparr>head := head c, tail := Some ?new, heap := ?h1[?new := Some ?nn], size_m := size_m c + 1\<rparr>"
  have tl: "tail c = Some t" "t \<notin> set bs" "distinct bs"
    using assms(1) by (simp_all add: wf_def)
  have ch0: "chain (heap c) None (head c) (bs @ [t])" using assms(1) by (simp add: wf_def)
  have hd: "head c \<noteq> None" using ch0 by (cases bs) auto
  have pos: "0 < size_m c" using wf_size_pos[OF assms(1)] by simp
  have tlt: "t < ?new" using assms(2) by (rule lookup_lt)
  have e: "emplace_back m c v = Inr ?c'"
    using pos tl(1) assms(2,3,4) hd tlt
    by (simp add: emplace_back_def empty_ul_def node_at_def is_full_def create_node_def
        assign_next_def lookup_app lookup_upd Node_emplace_back_def Let_def)
  have lt: "\<forall>a \<in> set (bs @ [t]). a < ?new"
    using chain_lookup[OF ch0] lookup_lt by blast
  have lkn: "lookup (heap ?c') ?new = Some ?nn" by (simp add: lookup_upd)
  have sameb: "\<forall>a \<in> set bs. lookup (?h1[?new := Some ?nn]) a = lookup (heap c) a"
    using lt tl(2) by (auto simp: lookup_upd lookup_app)
  have lkt: "lookup (heap ?c') t = Some (tn\<lparr>next := Some ?new\<rparr>)"
    using tlt by (simp add: lookup_upd)
  have ch1: "chain ?h1 None (head c) ((bs @ [t]) @ [?new])"
    using chain_snoc[OF ch0, of tn ?fresh] tl assms(2) by simp
  have lk1: "lookup ?h1 ?new = Some ?fresh" using tlt by (simp add: lookup_upd lookup_app)
  have "chain (?h1[?new := Some ?nn]) None (head c) ((bs @ [t]) @ [?new])"
    by (rule chain_payload[OF ch1 lk1]) simp_all
  then have ch: "chain (heap ?c') None (head ?c') (bs @ [t] @ [?new])" by simp
  have okt: "node_ok m (tn\<lparr>next := Some ?new\<rparr>)"
    using assms(1,2) by (simp add: wf_def nodes_ok_append nodes_ok_single node_ok_def)
  have okn: "node_ok m ?nn" using k by (simp add: node_ok_def)
  have di: "distinct (bs @ [t] @ [?new])" using tl lt by auto
  have okb: "nodes_ok m (?h1[?new := Some ?nn]) bs"
    using nodes_ok_cong[OF sameb, of m] assms(1) by (simp add: wf_def nodes_ok_append)
  have totb: "total_of (?h1[?new := Some ?nn]) bs = total_of (heap c) bs"
    by (rule total_of_cong[OF sameb])
  have elb: "elems_of (?h1[?new := Some ?nn]) bs = elems_of (heap c) bs"
    by (rule elems_of_cong[OF sameb])
  have "wf m ?c' (bs @ [t] @ [?new])"
    using ch di lkt lkn okt okn okb totb assms(1,2,3)
    by (simp add: wf_def nodes_ok_append nodes_ok_Cons total_of_append total_of_Cons)
  moreover have "elems ?c' (bs @ [t] @ [?new]) = elems c (bs @ [t]) @ [v]"
    using lkt lkn assms(2) k elb
    by (simp add: elems_def elems_of_append elems_of_Cons' contents_def)
  ultimately show ?thesis using e by blast
qed

lemma emplace_back_wf:
  assumes "wf m c as" "0 < m"
  shows "\<exists>c' as'. emplace_back m c v = Inr c' \<and> wf m c' as' \<and> elems c' as' = elems c as @ [v]"
proof (cases "as = []")
  case True
  then show ?thesis using emplace_back_first[of m c v] assms by (auto simp: elems_def)
next
  case False
  from wf_tail[OF assms(1) False] obtain bs t tn where
    t: "as = bs @ [t]" "lookup (heap c) t = Some tn" "node_ok m tn" by blast
  show ?thesis
  proof (cases "nsize tn < m")
    case True
    from emplace_back_room[OF assms(1)[unfolded t(1)] t(2) True, of v] show ?thesis
      using t(1) by blast
  next
    case False
    then have "nsize tn = m" using t(3) by (simp add: node_ok_def)
    from emplace_back_full[OF assms(1)[unfolded t(1)] t(2) this assms(2), of v] show ?thesis
      using t(1) by blast
  qed
qed

lemma push_back_range_wf:
  "wf m c as \<Longrightarrow> 0 < m \<Longrightarrow>
   \<exists>c' as'. push_back_range m c xs = Inr c' \<and> wf m c' as' \<and> elems c' as' = elems c as @ xs"
proof (induction xs arbitrary: c as)
  case Nil
  then show ?case by auto
next
  case (Cons x xs)
  from emplace_back_wf[OF Cons.prems, of x] obtain c1 as1 where
    c1: "emplace_back m c x = Inr c1" "wf m c1 as1" "elems c1 as1 = elems c as @ [x]" by blast
  from Cons.IH[OF c1(2) Cons.prems(2)] obtain c' as' where
    "push_back_range m c1 xs = Inr c'" "wf m c' as'" "elems c' as' = elems c1 as1 @ xs" by blast
  then show ?case using c1 by (auto simp: push_back_def)
qed

lemma wf_default: "wf m unrolled_list_default []"
  by (simp add: wf_def unrolled_list_default_def nodes_ok_def total_of_def)

lemma range_constructor_forward:
  assumes "0 < m"
  shows "\<exists>c. unrolled_list_range m xs = Inr c \<and> traverse c = Some (Inr xs) \<and> size_ul c = length xs"
proof -
  from push_back_range_wf[OF wf_default assms, of xs] obtain c as where
    c: "unrolled_list_range m xs = Inr c" "wf m c as" "elems c as = xs"
    by (auto simp: unrolled_list_range_def elems_def)
  have "size_ul c = length xs"
    using c(2,3) length_elems_of[of m "heap c" as] by (simp add: wf_def size_ul_def elems_def)
  then show ?thesis using c traverse_wf[OF c(2)] by simp
qed

lemma emplace_back_result:
  assumes "emplace_back m c v = Inr c'"
  shows "\<exists>t tn. tail c' = Some t \<and> lookup (heap c') t = Some tn \<and> 0 < nsize tn
           \<and> nsize tn \<le> length (data tn) \<and> data tn ! (nsize tn - 1) = Some v"
proof -
  from assms obtain c2 t2 tn2 tn3 where
    r: "node_at (heap c2) (tail c2) = Inr (t2, tn2)" "Node_emplace_back tn2 v = Inr tn3"
      "c' = c2\<lparr>size_m := size_m c2 + 1, heap := (heap c2)[t2 := Some tn3]\<rparr>"
    unfolding emplace_back_def by (auto split: sum.splits prod.splits)
  from r(1) have t2: "tail c2 = Some t2" "lookup (heap c2) t2 = Some tn2"
    by (auto simp: node_at_def split: option.splits)
  have lt: "t2 < length (heap c2)" using t2(2) by (rule lookup_lt)
  from r(2) have tn3: "nsize tn2 < length (data tn2)"
    "tn3 = tn2\<lparr>data := (data tn2)[nsize tn2 := Some v], nsize := nsize tn2 + 1\<rparr>"
    by (auto simp: Node_emplace_back_def split: if_splits)
  show ?thesis using r(3) t2 lt tn3 by (simp add: lookup_upd)
qed

subsection \<open>Removing a node\<close>

lemma nodes_ok_payload:
  "(\<forall>b \<in> set bs. same_payload h h' b) \<Longrightarrow> nodes_ok m h' bs = nodes_ok m h bs"
  by (induction bs) (auto simp: nodes_ok_Cons same_payload_def node_ok_def split: option.splits)

lemma total_of_payload:
  "(\<forall>b \<in> set bs. same_payload h h' b) \<Longrightarrow> total_of h' bs = total_of h bs"
  by (induction bs) (auto simp: total_of_Cons same_payload_def split: option.splits)

lemma elems_of_payload:
  "(\<forall>b \<in> set bs. same_payload h h' b) \<Longrightarrow> elems_of h' bs = elems_of h bs"
  by (induction bs) (auto simp: elems_of_Cons' same_payload_def contents_def split: option.splits)

lemma chain_next_hd:
  "chain h pv p ys \<Longrightarrow> p = Some q \<Longrightarrow> \<exists>zs. ys = q # zs"
  by (cases ys) auto

lemma chain_unlink:
  "chain h pv p (xs @ a # ys) \<Longrightarrow> xs \<noteq> [] \<Longrightarrow> distinct (xs @ a # ys) \<Longrightarrow>
   lookup h a = Some na \<Longrightarrow>
   lookup h' (last xs) = map_option (\<lambda>l. l\<lparr>next := next na\<rparr>) (lookup h (last xs)) \<Longrightarrow>
   (\<forall>q. next na = Some q \<longrightarrow>
        lookup h' q = map_option (\<lambda>nq. nq\<lparr>prev := Some (last xs)\<rparr>) (lookup h q)) \<Longrightarrow>
   (\<forall>b \<in> set (xs @ ys). b \<noteq> last xs \<longrightarrow> Some b \<noteq> next na \<longrightarrow> lookup h' b = lookup h b) \<Longrightarrow>
   chain h' pv p (xs @ ys)"
proof (induction xs arbitrary: pv p)
  case Nil
  then show ?case by simp
next
  case (Cons x xs)
  from Cons.prems(1) obtain nx where nx: "p = Some x" "lookup h x = Some nx" "prev nx = pv"
    "chain h (Some x) (next nx) (xs @ a # ys)"
    by (auto split: option.splits)
  from chain_split[OF Cons.prems(1)] Cons.prems(4) have
    cy: "chain h (Some a) (next na) ys" by auto
  have xq: "Some x \<noteq> next na"
  proof
    assume "Some x = next na"
    then obtain zs where "ys = x # zs" using chain_next_hd[OF cy, of x] by auto
    then show False using Cons.prems(3) by simp
  qed
  show ?case
  proof (cases xs)
    case Nil
    then have na: "next nx = Some a" using nx(4) by simp
    have lx: "lookup h' x = Some (nx\<lparr>next := next na\<rparr>)"
      using Cons.prems(5) Nil nx(2) by simp
    have "chain h' (Some x) (next na) ys"
    proof (cases ys)
      case Nil
      then show ?thesis using cy by simp
    next
      case (Cons q zs)
      then obtain nq where nq: "next na = Some q" "lookup h q = Some nq"
        "chain h (Some q) (next nq) zs"
        using cy by (auto split: option.splits)
      have lq: "lookup h' q = Some (nq\<lparr>prev := Some x\<rparr>)"
        using Cons.prems(6) nq(1,2) Nil by simp
      have "\<forall>b \<in> set zs. lookup h' b = lookup h b"
        using Cons.prems(3,7) Nil Cons nq(1) by auto
      then have "chain h' (Some q) (next nq) zs" using nq(3) chain_cong by blast
      then show ?thesis using Cons nq(1) lq by simp
    qed
    then show ?thesis using Nil nx(1,3) lx by simp
  next
    case (Cons x2 xs')
    then have l: "last (x # xs) = last xs" "xs \<noteq> []" by simp_all
    have xl: "x \<noteq> last xs" using Cons.prems(3) l(2) by (metis distinct.simps(2) distinct_append last_in_set)
    have lx: "lookup h' x = Some nx"
      using Cons.prems(7) xl xq nx(2) l by simp
    have "chain h' (Some x) (next nx) (xs @ ys)"
      using Cons.IH[OF nx(4) l(2) _ Cons.prems(4)] Cons.prems(3,5,6,7) l by simp
    then show ?thesis using nx(1,3) lx by simp
  qed
qed

lemma Node_erase_single:
  "nsize n = 1 \<Longrightarrow> 0 < length (data n) \<Longrightarrow> data n ! 0 = Some x \<Longrightarrow>
   Node_erase n 0 = Inr (n\<lparr>data := (data n)[0 := None], nsize := 0\<rparr>)"
  by (simp add: Node_erase_def destroy_def dec_size_t_def erase_loop.simps)

lemma destroy_node_linked:
  assumes a: "lookup (heap c) a = Some na" and pv: "prev na = Some p"
    and p: "lookup (heap c) p = Some np" "p \<noteq> a"
    and nx: "case next na of None \<Rightarrow> True
             | Some q \<Rightarrow> q \<noteq> a \<and> q \<noteq> p \<and> lookup (heap c) q \<noteq> None"
    and hd: "head c \<noteq> Some a"
  shows "\<exists>c'. destroy_node c a = Inr c' \<and> head c' = head c
      \<and> tail c' = (if tail c = Some a then Some p else tail c) \<and> size_m c' = size_m c
      \<and> lookup (heap c') a = None
      \<and> lookup (heap c') p = Some (np\<lparr>next := next na\<rparr>)
      \<and> (\<forall>q. next na = Some q \<longrightarrow>
            lookup (heap c') q = map_option (\<lambda>nq. nq\<lparr>prev := Some p\<rparr>) (lookup (heap c) q))
      \<and> (\<forall>b. b \<noteq> a \<longrightarrow> b \<noteq> p \<longrightarrow> Some b \<noteq> next na \<longrightarrow> lookup (heap c') b = lookup (heap c) b)"
proof -
  have lt: "a < length (heap c)" "p < length (heap c)"
    using a p(1) by (auto dest: lookup_lt)
  show ?thesis
  proof (cases "next na")
    case None
    then show ?thesis using a pv p lt hd
      by (auto simp: destroy_node_def assign_next_def lookup_upd)
  next
    case (Some q)
    then obtain nq where q: "q \<noteq> a" "q \<noteq> p" "lookup (heap c) q = Some nq"
      using nx by auto
    have ql: "q < length (heap c)" using q(3) by (rule lookup_lt)
    show ?thesis using Some a pv p lt hd q ql
      by (auto simp: destroy_node_def assign_next_def assign_prev_def lookup_upd)
  qed
qed

subsection \<open>Well-formed lists: size, traversal and comparison\<close>

lemma distance_wf:
  assumes "wf m c as"
  shows "distance_begin_end c = Some (Inr (size_ul c))"
proof -
  have ch: "chain (heap c) None (head c) as" and ok: "nodes_ok m (heap c) as"
    using assms by (simp_all add: wf_def)
  have "pos_in (heap c) as (cbegin c) (elems_of (heap c) as)"
    unfolding cbegin_def by (rule pos_in_begin[OF ch ok])
  from distance_loop_pos[OF ch ok this, of 0] show ?thesis
    using assms length_elems_of[OF ok] by (simp add: distance_begin_end_def wf_def size_ul_def)
qed

lemma operator_eq_on_well_formed:
  assumes "wf m lhs as1" "wf m rhs as2"
  shows "\<exists>xs ys. traverse lhs = Some (Inr xs) \<and> traverse rhs = Some (Inr ys)
           \<and> operator_eq lhs rhs = Some (Inr (size_ul lhs = size_ul rhs \<and> xs = ys))
           \<and> operator_neq lhs rhs = Some (Inr (\<not> (size_ul lhs = size_ul rhs \<and> xs = ys)))"
proof -
  let ?xs = "elems lhs as1" and ?ys = "elems rhs as2"
  have ch1: "chain (heap lhs) None (head lhs) as1" and ok1: "nodes_ok m (heap lhs) as1"
    and ch2: "chain (heap rhs) None (head rhs) as2" and ok2: "nodes_ok m (heap rhs) as2"
    using assms by (simp_all add: wf_def)
  have l1: "length ?xs = size_ul lhs" and l2: "length ?ys = size_ul rhs"
    using assms length_elems_of[OF ok1] length_elems_of[OF ok2]
    by (simp_all add: wf_def elems_def size_ul_def)
  have p1: "pos_in (heap lhs) as1 (cbegin lhs) ?xs"
    unfolding cbegin_def elems_def by (rule pos_in_begin[OF ch1 ok1])
  have p2: "pos_in (heap rhs) as2 (cbegin rhs) ?ys"
    unfolding cbegin_def elems_def by (rule pos_in_begin[OF ch2 ok2])
  have eq: "operator_eq lhs rhs = Some (Inr (size_ul lhs = size_ul rhs \<and> ?xs = ?ys))"
  proof (cases "size_ul lhs = size_ul rhs")
    case True
    then have "length ?xs = length ?ys" using l1 l2 by simp
    from std_equal_pos[OF ch1 ok1 p1 ch2 ok2 p2 this] True show ?thesis
      by (simp add: operator_eq_def)
  next
    case False
    then show ?thesis by (simp add: operator_eq_def)
  qed
  then have "operator_neq lhs rhs = Some (Inr (\<not> (size_ul lhs = size_ul rhs \<and> ?xs = ?ys)))"
    by (simp add: operator_neq_def)
  then show ?thesis using eq traverse_wf[OF assms(1)] traverse_wf[OF assms(2)] by blast
qed

section \<open>Results\<close>

subsection \<open>States in which the head node is empty\<close>

text \<open>
  Claim C1 (fails on the code). After \<open>push_back(1); pop_back();\<close> the list reports
  \<open>size() = 0\<close>, but \<open>begin()\<close> differs from \<open>end()\<close>: the walk from \<open>begin()\<close>
  to \<open>end()\<close> visits one position, and reading it is a read of a destroyed element.
\<close>

theorem size_differs_from_traversal_after_pop_back:
  "map_sum id size_ul pushed_then_popped = Inr 0
   \<and> map_sum id (\<lambda>c. cbegin c = cend) pushed_then_popped = Inr False
   \<and> map_sum id distance_begin_end pushed_then_popped = Inr (Some (Inr 1))
   \<and> map_sum id traverse pushed_then_popped = Inr (Some (Inl UB))"
  by code_simp

text \<open>
  Claim C2 (fails on the code). After \<open>push_back(1); pop_back();\<close> the list holds no
  element, yet head and tail still point to a node (of size 0); a following
  \<open>push_back(2)\<close> then allocates a second node that is not linked to the first, so the
  new element is not reached from \<open>begin()\<close>. After draining the head node of a
  two-node list with \<open>erase\<close>, the head node has size 0 although it is not the last node
  and the list holds one element. (\<open>push_back(1); pop_front();\<close> does free the drained
  node and leaves head and tail null.)
\<close>

theorem empty_head_node_kept:
  "map_sum id (\<lambda>c. (size_ul c, head c, tail c, map (map_option nsize) (heap c)))
       pushed_then_popped
     = Inr (0, Some 0, Some 0, [Some 0])
   \<and> map_sum id (\<lambda>c. (size_ul c, head c, tail c, map (map_option nsize) (heap c),
                       map (map_option next) (heap c), distance_begin_end c))
       (ub_bind pushed_then_popped (\<lambda>c. push_back 10 c 2))
     = Inr (1, Some 0, Some 1, [Some 0, Some 1], [Some None, Some None], Some (Inr 1))
   \<and> map_sum id (\<lambda>c. traverse c) (ub_bind pushed_then_popped (\<lambda>c. push_back 10 c 2))
     = Inr (Some (Inl UB))
   \<and> map_sum id (\<lambda>c. (size_ul c, head c, tail c, map (map_option nsize) (heap c)))
       head_drained
     = Inr (1, Some 0, Some 1, [Some 0, Some 1])
   \<and> map_sum id (\<lambda>c. (size_ul c, head c, tail c, heap c)) pushed_then_popped_front
     = Inr (0, None, None, [None])"
  by code_simp

subsection \<open>Splitting a full node\<close>

text \<open>
  Claim C3 (as amended). Let a node be full, with capacity \<open>m \<ge> 2\<close>, and let
  \<open>0 \<le> p \<le> m\<close>. Inserting \<open>v\<close> at offset \<open>p\<close> of that node allocates one new node,
  linked right after it. The old node keeps its first \<open>m div 2\<close> elements and the new
  node receives the other \<open>m - m div 2\<close>, in order. The value goes into the old node
  at \<open>p\<close> when \<open>p < m div 2\<close> (the sizes are then \<open>m div 2 + 1\<close> and \<open>m - m div 2\<close>),
  and into the new node at \<open>p - m div 2\<close> otherwise (sizes \<open>m div 2\<close> and
  \<open>m - m div 2 + 1\<close>). The two nodes' contents, concatenated, are the old contents with
  \<open>v\<close> inserted at index \<open>p\<close>; the returned iterator addresses \<open>v\<close>.
\<close>

theorem emplace_splits_full_node:
  assumes n: "lookup (heap c) a = Some n"
    and full: "nsize n = m" "length (data n) = m" "list_all (\<lambda>s. s \<noteq> None) (data n)"
    and m2: "2 \<le> m" and p: "p \<le> m"
    and nx: "case next n of None \<Rightarrow> True | Some q \<Rightarrow> lookup (heap c) q \<noteq> None"
  shows "\<exists>c' lo hi.
      emplace m c \<lparr>current_node = Some a, current_pos = p\<rparr> v
        = Inr (c', \<lparr>current_node = Some (if p < m div 2 then a else length (heap c)),
                    current_pos = (if p < m div 2 then p else p - m div 2)\<rparr>)
      \<and> size_ul c' = size_ul c + 1
      \<and> length (heap c') = length (heap c) + 1
      \<and> lookup (heap c') a = Some lo \<and> lookup (heap c') (length (heap c)) = Some hi
      \<and> next lo = Some (length (heap c)) \<and> prev hi = Some a \<and> next hi = next n
      \<and> nsize lo = (if p < m div 2 then m div 2 + 1 else m div 2)
      \<and> nsize hi = (if p < m div 2 then m - m div 2 else m - m div 2 + 1)
      \<and> (if p < m div 2
          then contents lo = take p (take (m div 2) (contents n)) @ v # drop p (take (m div 2) (contents n))
               \<and> contents hi = drop (m div 2) (contents n)
          else contents lo = take (m div 2) (contents n)
               \<and> contents hi = take (p - m div 2) (drop (m div 2) (contents n)) @ v
                     # drop (p - m div 2) (drop (m div 2) (contents n)))
      \<and> contents lo @ contents hi = take p (contents n) @ v # drop p (contents n)"
proof -
  let ?new = "length (heap c)" and ?half = "m div 2"
  let ?fresh = "\<lparr>nsize = 0, next = next n, prev = Some a, data = replicate m None\<rparr> :: 'a Node"
  have al: "a < ?new" using n by (rule lookup_lt)
  have live: "\<forall>j < m. data n ! j \<noteq> None" using full by (auto simp: list_all_length)
  have cn: "contents n = map the (data n)" using full by (simp add: contents_def)
  have lcn: "length (contents n) = m" using full cn by simp
  have cn_nth: "\<And>j. j < m \<Longrightarrow> data n ! j = Some (contents n ! j)"
    using live full cn by auto
  from create_node_after[OF n nx, of m] obtain c1 n1 where
    c1: "create_node m c (Some a) (next n) = Inr (c1, ?new)" "size_m c1 = size_m c"
      "length (heap c1) = ?new + 1" "lookup (heap c1) a = Some n1" "data n1 = data n"
      "nsize n1 = nsize n" "next n1 = Some ?new" "lookup (heap c1) ?new = Some ?fresh"
    by blast
  have hm: "?half \<le> m" "?half < m" "1 \<le> ?half" using m2 by auto
  have sp: "?half \<le> m" "m \<le> length (data n1)" "\<forall>j. ?half \<le> j \<and> j < m \<longrightarrow> data n1 ! j \<noteq> None"
    "nsize ?fresh + (m - ?half) \<le> length (data ?fresh)"
    using live c1(5) full by auto
  from split_loop_spec[OF sp] obtain n2 nn2 where
    s: "split_loop ?half m n1 ?fresh = Inr (n2, nn2)"
      "next n2 = next n1" "length (data n2) = length (data n1)"
      "\<forall>j < ?half. data n2 ! j = data n1 ! j"
      "next nn2 = next ?fresh" "prev nn2 = prev ?fresh" "length (data nn2) = length (data ?fresh)"
      "\<forall>j < m - ?half. data nn2 ! (nsize ?fresh + j) = data n1 ! (?half + j)"
    by blast
  let ?n3 = "n2\<lparr>nsize := ?half\<rparr>" and ?nn3 = "nn2\<lparr>nsize := m - ?half\<rparr>"
  have c3: "contents ?n3 = take ?half (contents n)"
    unfolding contents_def using s(3,4) c1(5) full hm lcn cn_nth
    by (intro map_the_take_eqI) auto
  have cc3: "contents ?nn3 = drop ?half (contents n)"
    unfolding contents_def using s(7,8) c1(5) full hm lcn cn_nth
    by (intro map_the_take_eqI) auto
  have l3: "list_all (\<lambda>s. s \<noteq> None) (take (nsize ?n3) (data ?n3))"
    using s(3,4) c1(5) full hm live by (auto simp: list_all_length)
  have ll3: "list_all (\<lambda>s. s \<noteq> None) (take (nsize ?nn3) (data ?nn3))"
    using s(7,8) c1(5) full hm live by (auto simp: list_all_length)
  have ne: "\<lparr>current_node = Some a, current_pos = p\<rparr> \<noteq> cend" by (simp add: cend_def)
  have pre: "emplace m c \<lparr>current_node = Some a, current_pos = p\<rparr> v =
      (if p < ?half then
         (case Node_insert ?n3 p v of
            Inl e \<Rightarrow> Inl e
          | Inr n4 \<Rightarrow>
              Inr (c1\<lparr>size_m := size_m c1 + 1,
                      heap := (heap c1)[a := Some n4, ?new := Some ?nn3]\<rparr>,
                   \<lparr>current_node = Some a, current_pos = p\<rparr>))
       else
         (case Node_insert ?nn3 (p - ?half) v of
            Inl e \<Rightarrow> Inl e
          | Inr nn4 \<Rightarrow>
              Inr (c1\<lparr>size_m := size_m c1 + 1,
                      heap := (heap c1)[a := Some ?n3, ?new := Some nn4]\<rparr>,
                   \<lparr>current_node = Some ?new, current_pos = p - ?half\<rparr>)))"
    using ne n full(1) c1(1,4,8) s(1)
    by (simp add: emplace_def node_at_def is_full_def Let_def)
  show ?thesis
  proof (cases "p < ?half")
    case True
    have a1: "nsize ?n3 < length (data ?n3)" "p \<le> nsize ?n3"
      using s(3) c1(5) full hm True by auto
    from Node_insert_spec[OF a1 l3, of v] obtain n4 where
      n4: "Node_insert ?n3 p v = Inr n4" "nsize n4 = nsize ?n3 + 1" "next n4 = next ?n3"
        "contents n4 = take p (contents ?n3) @ v # drop p (contents ?n3)"
      by blast
    let ?c' = "c1\<lparr>size_m := size_m c1 + 1, heap := (heap c1)[a := Some n4, ?new := Some ?nn3]\<rparr>"
    have e: "emplace m c \<lparr>current_node = Some a, current_pos = p\<rparr> v
             = Inr (?c', \<lparr>current_node = Some a, current_pos = p\<rparr>)"
      using pre True n4(1) by simp
    have lk: "lookup (heap ?c') a = Some n4" "lookup (heap ?c') ?new = Some ?nn3"
      using al c1(3) by (simp_all add: lookup_upd)
    have cat: "contents n4 @ contents ?nn3 = take p (contents n) @ v # drop p (contents n)"
    proof -
      have "take p (take ?half (contents n)) = take p (contents n)" using True by (simp add: min_def)
      moreover have "drop p (take ?half (contents n)) @ drop ?half (contents n) = drop p (contents n)"
        using True by (metis append_take_drop_id drop_append drop_take less_imp_le_nat
            diff_is_0_eq drop0 length_take lcn min.absorb2 hm(1) drop_all order_less_imp_le)
      ultimately show ?thesis using n4(4) c3 cc3 by simp
    qed
    show ?thesis
      using e lk n4(2,3,4) s(2,5,6) c1(2,3,7) True c3 cc3 cat
      by (intro exI[of _ ?c'] exI[of _ n4] exI[of _ ?nn3]) (simp add: size_ul_def)
  next
    case False
    have a1: "nsize ?nn3 < length (data ?nn3)" "p - ?half \<le> nsize ?nn3"
      using s(7) hm p False by auto
    from Node_insert_spec[OF a1 ll3, of v] obtain nn4 where
      n4: "Node_insert ?nn3 (p - ?half) v = Inr nn4" "nsize nn4 = nsize ?nn3 + 1"
        "next nn4 = next ?nn3" "prev nn4 = prev ?nn3"
        "contents nn4 = take (p - ?half) (contents ?nn3) @ v # drop (p - ?half) (contents ?nn3)"
      by blast
    let ?c' = "c1\<lparr>size_m := size_m c1 + 1, heap := (heap c1)[a := Some ?n3, ?new := Some nn4]\<rparr>"
    have e: "emplace m c \<lparr>current_node = Some a, current_pos = p\<rparr> v
             = Inr (?c', \<lparr>current_node = Some ?new, current_pos = p - ?half\<rparr>)"
      using pre False n4(1) by simp
    have lk: "lookup (heap ?c') a = Some ?n3" "lookup (heap ?c') ?new = Some nn4"
      using al c1(3) by (simp_all add: lookup_upd)
    have cat: "contents ?n3 @ contents nn4 = take p (contents n) @ v # drop p (contents n)"
    proof -
      have hp: "?half \<le> p" using False by simp
      have "take ?half (contents n) @ take (p - ?half) (drop ?half (contents n)) = take p (contents n)"
        using hp by (metis take_add le_add_diff_inverse)
      moreover have "drop (p - ?half) (drop ?half (contents n)) = drop p (contents n)"
        using hp by simp
      ultimately show ?thesis using n4(5) c3 cc3 by simp
    qed
    show ?thesis
      using e lk n4(2,3,4,5) s(2,5,6) c1(2,3,7) False c3 cc3 cat
      by (intro exI[of _ ?c'] exI[of _ ?n3] exI[of _ nn4]) (simp add: size_ul_def)
  qed
qed

theorem emplace_splits_full_node_witness:
  "unrolled_list_range 5 [1, 2, 3, 4, 5] = Inr full_node
   \<and> (\<exists>c' lo hi.
         emplace 5 full_node \<lparr>current_node = Some 0, current_pos = 1\<rparr> 9
           = Inr (c', \<lparr>current_node = Some 0, current_pos = 1\<rparr>)
         \<and> size_ul c' = 6
         \<and> lookup (heap c') 0 = Some lo \<and> lookup (heap c') 1 = Some hi
         \<and> nsize lo = 3 \<and> nsize hi = 3
         \<and> contents lo = [1, 9, 2] \<and> contents hi = [3, 4, 5])
   \<and> (\<exists>c' lo hi.
         emplace 5 full_node \<lparr>current_node = Some 0, current_pos = 4\<rparr> 9
           = Inr (c', \<lparr>current_node = Some 1, current_pos = 2\<rparr>)
         \<and> size_ul c' = 6
         \<and> lookup (heap c') 0 = Some lo \<and> lookup (heap c') 1 = Some hi
         \<and> nsize lo = 2 \<and> nsize hi = 4
         \<and> contents lo = [1, 2] \<and> contents hi = [3, 4, 9, 5])"
proof -
  let ?n = "\<lparr>nsize = 5, next = None, prev = None,
             data = [Some 1, Some 2, Some 3, Some 4, Some 5]\<rparr> :: int Node"
  have h: "lookup (heap full_node) 0 = Some ?n" "nsize ?n = 5" "length (data ?n) = 5"
    "list_all (\<lambda>s. s \<noteq> None) (data ?n)" "2 \<le> (5 :: nat)"
    "case next ?n of None \<Rightarrow> True | Some q \<Rightarrow> lookup (heap full_node) q \<noteq> None"
    by (simp_all add: full_node_def lookup_def)
  have c: "contents ?n = [1, 2, 3, 4, 5]" by (simp add: contents_def)
  have s: "size_ul full_node = 5" "length (heap full_node) = 1"
    by (simp_all add: full_node_def size_ul_def)
  have r: "unrolled_list_range 5 [1, 2, 3, 4, 5] = Inr full_node" by code_simp
  have a: "\<exists>c' lo hi.
         emplace 5 full_node \<lparr>current_node = Some 0, current_pos = 1\<rparr> 9
           = Inr (c', \<lparr>current_node = Some 0, current_pos = 1\<rparr>)
         \<and> size_ul c' = 6
         \<and> lookup (heap c') 0 = Some lo \<and> lookup (heap c') 1 = Some hi
         \<and> nsize lo = 3 \<and> nsize hi = 3
         \<and> contents lo = [1, 9, 2] \<and> contents hi = [3, 4, 5]"
    using emplace_splits_full_node [OF h(1-5) _ h(6), of 1 9] c s by auto
  have b: "\<exists>c' lo hi.
         emplace 5 full_node \<lparr>current_node = Some 0, current_pos = 4\<rparr> 9
           = Inr (c', \<lparr>current_node = Some 1, current_pos = 2\<rparr>)
         \<and> size_ul c' = 6
         \<and> lookup (heap c') 0 = Some lo \<and> lookup (heap c') 1 = Some hi
         \<and> nsize lo = 2 \<and> nsize hi = 4
         \<and> contents lo = [1, 2] \<and> contents hi = [3, 4, 9, 5]"
    using emplace_splits_full_node [OF h(1-5) _ h(6), of 4 9] c s by auto
  from r a b show ?thesis by blast
qed

text \<open>
  The claim as stated gives the sizes \<open>m div 2\<close> and \<open>m - m div 2 + 1\<close> for every
  offset. With capacity 3 and offset 0 the sizes are 2 and 2, not 1 and 3. (With
  capacity 1 the insertion writes past the one-slot buffer of the new node.)
\<close>

theorem split_sizes_counterexample:
  "map_sum id (\<lambda>(c', it). map (map_option nsize) (heap c')) split_of_three
     = Inr [Some 2, Some 2]
   \<and> map_sum id (\<lambda>(c', it). map (map_option nsize) (heap c')) split_of_three
     \<noteq> Inr [Some (3 div 2), Some (3 - 3 div 2 + 1)]
   \<and> map_sum id (\<lambda>(c', it). map (map_option nsize) (heap c')) split_of_three
     \<noteq> Inr [Some (3 - 3 div 2 + 1), Some (3 div 2)]
   \<and> map_sum id (\<lambda>(c', it). traverse c') split_of_three = Inr (Some (Inr [7, 1, 2, 3]))
   \<and> split_of_one = Inl UB"
  by code_simp

subsection \<open>The iterator returned by erase\<close>

text \<open>
  Claim C4 (fails on the code). In the one-node list 1, 2, 3, erasing the last element
  (offset 2) returns the iterator at offset 0 of the same node, which addresses the
  element 1, not \<open>end()\<close>. So \<open>erase(first, end())\<close> from that position goes on to erase
  1 and 2 as well and then erases in the drained node, which is undefined behaviour.
\<close>

theorem erase_last_in_node_returns_first:
  "map_sum id (\<lambda>c. map_sum id (\<lambda>(c', it). (it, it = cend, deref c' it, traverse c'))
                     (erase c \<lparr>current_node = head c, current_pos = 2\<rparr>))
       (unrolled_list_range 10 [1, 2, 3 :: int])
     = Inr (Inr (\<lparr>current_node = Some 0, current_pos = 0\<rparr>, False, Inr 1, Some (Inr [1, 2])))
   \<and> map_sum id (\<lambda>c. erase_range c \<lparr>current_node = head c, current_pos = 2\<rparr> cend)
       (unrolled_list_range 10 [1, 2, 3 :: int])
     = Inr (Some (Inl UB))"
  by code_simp

subsection \<open>Reverse traversal\<close>

text \<open>
  Claim C5 (fails on the code). The list built from the one-element sequence 1 is
  traversed forwards as 1, but the reverse traversal dereferences \<open>rbegin()\<close>, which
  decrements \<open>end()\<close>, an iterator whose node pointer is null: undefined behaviour.
\<close>

theorem reverse_traversal_dereferences_null:
  "map_sum id traverse (unrolled_list_range 10 [1 :: int]) = Inr (Some (Inr [1]))
   \<and> map_sum id (\<lambda>c. decrement c (rbegin c)) (unrolled_list_range 10 [1 :: int]) = Inr (Inl UB)
   \<and> map_sum id reverse_traverse (unrolled_list_range 10 [1 :: int]) = Inr (Some (Inl UB))"
  by code_simp

subsection \<open>Erasing the only element of a node\<close>

text \<open>
  Claim C6. In a well-formed list, let \<open>a\<close> be a node that holds exactly one element.
  If \<open>a\<close> is not the head node, erasing that element frees the node and unlinks it: the
  list is well-formed again on the chain without \<open>a\<close>, its size is one less, its
  traversal is the old one without that element, and the returned iterator is the start of
  the following node (\<open>end()\<close> if there is none). If \<open>a\<close> is the head node and also
  the tail node, erasing the element leaves \<open>size() = 0\<close> and \<open>empty()\<close> true, and the
  node stays allocated, with size 0, as head and tail.
\<close>

theorem erase_only_element_of_node:
  assumes w: "wf m c as" and mem: "a \<in> set as"
    and n: "lookup (heap c) a = Some n" and one: "nsize n = 1"
  shows "(head c \<noteq> Some a \<longrightarrow>
           (\<exists>c' xs x ys. erase c \<lparr>current_node = Some a, current_pos = 0\<rparr>
                    = Inr (c', \<lparr>current_node = next n, current_pos = 0\<rparr>)
               \<and> lookup (heap c') a = None \<and> wf m c' (remove1 a as)
               \<and> size_ul c' + 1 = size_ul c
               \<and> traverse c = Some (Inr (xs @ x # ys)) \<and> contents n = [x]
               \<and> traverse c' = Some (Inr (xs @ ys))))
       \<and> (head c = Some a \<and> tail c = Some a \<longrightarrow>
           (\<exists>c' n'. erase c \<lparr>current_node = Some a, current_pos = 0\<rparr>
                    = Inr (c', \<lparr>current_node = Some a, current_pos = 0\<rparr>)
               \<and> empty_ul c' \<and> size_ul c' = 0 \<and> head c' = Some a \<and> tail c' = Some a
               \<and> lookup (heap c') a = Some n' \<and> nsize n' = 0))"
proof -
  from mem obtain xs ys where as: "as = xs @ a # ys" by (auto simp: in_set_conv_decomp)
  have ch: "chain (heap c) None (head c) (xs @ a # ys)" and di: "distinct (xs @ a # ys)"
    and tl: "tail c = Some (last (a # ys))" and ok: "nodes_ok m (heap c) (xs @ a # ys)"
    and sz: "size_m c = total_of (heap c) (xs @ a # ys)"
    using w as by (simp_all add: wf_def)
  have okn: "node_ok m n" using ok n by (simp add: nodes_ok_append nodes_ok_Cons)
  have dl: "0 < length (data n)" using okn one by (auto simp: node_ok_def)
  have "data n ! 0 \<noteq> None" using okn one dl by (auto simp: node_ok_def list_all_length)
  then obtain x where x: "data n ! 0 = Some x" "0 < length (data n)"
    using dl by auto
  have cx: "contents n = [x]"
    using x one by (cases "data n") (simp_all add: contents_def)
  let ?n' = "n\<lparr>data := (data n)[0 := None], nsize := 0\<rparr>"
  have ne: "Node_erase n 0 = Inr ?n'" using Node_erase_single[OF one x(2,1)] .
  have szp: "size_m c = total_of (heap c) xs + 1 + total_of (heap c) ys"
    using sz n one by (simp add: total_of_append total_of_Cons)
  let ?c1 = "c\<lparr>size_m := dec_size_t (size_m c), heap := (heap c)[a := Some ?n']\<rparr>"
  have al: "a < length (heap c)" using n by (rule lookup_lt)
  have l1a: "lookup (heap ?c1) a = Some ?n'" using al by (simp add: lookup_upd)
  have l1b: "\<And>b. b \<noteq> a \<Longrightarrow> lookup (heap ?c1) b = lookup (heap c) b" by (simp add: lookup_upd)
  have ch1: "chain (heap ?c1) None (head c) (xs @ a # ys)"
    using chain_payload[OF ch n, of ?n'] by simp
  from chain_split[OF ch] n have
    sp: "prev n = (if xs = [] then None else Some (last xs))" "chain (heap c) (Some a) (next n) ys"
      "xs \<noteq> [] \<longrightarrow> (\<exists>l. lookup (heap c) (last xs) = Some l \<and> next l = Some a)"
    by auto
  have part1: "\<exists>c' xs x ys. erase c \<lparr>current_node = Some a, current_pos = 0\<rparr>
                    = Inr (c', \<lparr>current_node = next n, current_pos = 0\<rparr>)
               \<and> lookup (heap c') a = None \<and> wf m c' (remove1 a as)
               \<and> size_ul c' + 1 = size_ul c
               \<and> traverse c = Some (Inr (xs @ x # ys)) \<and> contents n = [x]
               \<and> traverse c' = Some (Inr (xs @ ys))" if hd: "head c \<noteq> Some a"
  proof -
    have xne: "xs \<noteq> []" using ch hd by (cases xs) auto
    let ?p = "last xs"
    from sp xne obtain np where np: "prev n = Some ?p" "lookup (heap c) ?p = Some np"
      by auto
    have pa: "?p \<noteq> a" using di xne by (metis distinct_append disjoint_iff last_in_set list.set_intros(1))
    have nxc: "case next ?n' of None \<Rightarrow> True
             | Some q \<Rightarrow> q \<noteq> a \<and> q \<noteq> ?p \<and> lookup (heap ?c1) q \<noteq> None"
    proof (cases "next n")
      case None
      then show ?thesis by simp
    next
      case (Some q)
      then obtain zs where zs: "ys = q # zs" using chain_next_hd[OF sp(2)] by auto
      then have "q \<noteq> a" "q \<noteq> ?p" using di xne by (auto dest: last_in_set)
      moreover have "lookup (heap c) q \<noteq> None" using sp(2) zs by (auto split: option.splits)
      ultimately show ?thesis using Some by (simp add: lookup_upd)
    qed
    have hd1: "head ?c1 \<noteq> Some a" using hd by simp
    from destroy_node_linked[OF l1a _ _ pa nxc hd1, of np] np pa obtain c' where
      c': "destroy_node ?c1 a = Inr c'" "head c' = head c"
        "tail c' = (if tail c = Some a then Some ?p else tail c)" "size_m c' = dec_size_t (size_m c)"
        "lookup (heap c') a = None" "lookup (heap c') ?p = Some (np\<lparr>next := next n\<rparr>)"
        "\<forall>q. next n = Some q \<longrightarrow>
            lookup (heap c') q = map_option (\<lambda>nq. nq\<lparr>prev := Some ?p\<rparr>) (lookup (heap ?c1) q)"
        "\<forall>b. b \<noteq> a \<longrightarrow> b \<noteq> ?p \<longrightarrow> Some b \<noteq> next n \<longrightarrow> lookup (heap c') b = lookup (heap ?c1) b"
      by (auto simp: lookup_upd)
    have e: "erase c \<lparr>current_node = Some a, current_pos = 0\<rparr>
               = Inr (c', \<lparr>current_node = next n, current_pos = 0\<rparr>)"
      using n ne hd c'(1) by (simp add: erase_def node_at_def Let_def)
    have chu: "chain (heap c') None (head c) (xs @ ys)"
    proof (rule chain_unlink[OF ch1 xne di l1a])
      show "lookup (heap c') ?p = map_option (\<lambda>l. l\<lparr>next := next ?n'\<rparr>) (lookup (heap ?c1) ?p)"
        using c'(6) np(2) pa by (simp add: lookup_upd)
      show "\<forall>q. next ?n' = Some q \<longrightarrow>
          lookup (heap c') q = map_option (\<lambda>nq. nq\<lparr>prev := Some ?p\<rparr>) (lookup (heap ?c1) q)"
        using c'(7) by simp
      show "\<forall>b \<in> set (xs @ ys). b \<noteq> ?p \<longrightarrow> Some b \<noteq> next ?n' \<longrightarrow>
          lookup (heap c') b = lookup (heap ?c1) b"
        using c'(8) di by auto
    qed
    have pay: "\<forall>b \<in> set (xs @ ys). same_payload (heap c) (heap c') b"
    proof
      fix b assume b: "b \<in> set (xs @ ys)"
      then have ba: "b \<noteq> a" using di by auto
      show "same_payload (heap c) (heap c') b"
      proof (cases "b = ?p")
        case True
        then show ?thesis using c'(6) np(2) by (simp add: same_payload_def)
      next
        case False
        show ?thesis
        proof (cases "Some b = next n")
          case True
          then show ?thesis using c'(7) ba
            by (auto simp: same_payload_def lookup_upd split: option.splits)
        next
          case F2: False
          then have "lookup (heap c') b = lookup (heap c) b"
            using c'(8) ba False by (simp add: lookup_upd)
          then show ?thesis by (simp add: same_payload_def split: option.splits)
        qed
      qed
    qed
    have tl': "tail c' = Some (last (xs @ ys))"
      using c'(3) tl di xne by (cases "ys = []") auto
    have pos: "dec_size_t (size_m c) = total_of (heap c) xs + total_of (heap c) ys"
      using szp by (simp add: dec_size_t_def)
    have okxy: "nodes_ok m (heap c) (xs @ ys)" using ok by (simp add: nodes_ok_append nodes_ok_Cons)
    have w': "wf m c' (xs @ ys)"
      using chu di tl' xne c'(2,4) pos okxy nodes_ok_payload[OF pay, of m] total_of_payload[OF pay]
      by (simp add: wf_def total_of_append)
    have rm: "remove1 a as = xs @ ys" using as di by (simp add: remove1_append)
    have t0: "traverse c = Some (Inr (elems_of (heap c) xs @ x # elems_of (heap c) ys))"
      using traverse_wf[OF w] as n cx by (simp add: elems_def elems_of_append elems_of_Cons')
    have t1: "traverse c' = Some (Inr (elems_of (heap c) xs @ elems_of (heap c) ys))"
      using traverse_wf[OF w'] elems_of_payload[OF pay] by (simp add: elems_def elems_of_append)
    have s1: "size_ul c' + 1 = size_ul c"
      using c'(4) pos szp by (simp add: size_ul_def)
    show ?thesis using e c'(5) w' rm s1 t0 t1 cx by auto
  qed
  have part2: "\<exists>c' n'. erase c \<lparr>current_node = Some a, current_pos = 0\<rparr>
                    = Inr (c', \<lparr>current_node = Some a, current_pos = 0\<rparr>)
               \<and> empty_ul c' \<and> size_ul c' = 0 \<and> head c' = Some a \<and> tail c' = Some a
               \<and> lookup (heap c') a = Some n' \<and> nsize n' = 0"
    if hd: "head c = Some a \<and> tail c = Some a"
  proof -
    have xe: "xs = []"
    proof (cases xs)
      case (Cons y zs)
      then have "y = a" using ch hd by auto
      then show ?thesis using di Cons by simp
    qed simp
    have ye: "ys = []"
    proof (rule ccontr)
      assume "ys \<noteq> []"
      then have "last (a # ys) \<in> set ys" by simp
      moreover have "last (a # ys) = a" using tl hd by simp
      ultimately show False using di by simp
    qed
    have s: "size_m c = 1" using szp xe ye by simp
    have "erase c \<lparr>current_node = Some a, current_pos = 0\<rparr>
           = Inr (?c1, \<lparr>current_node = Some a, current_pos = 0\<rparr>)"
      using n ne hd by (simp add: erase_def node_at_def Let_def)
    then show ?thesis using hd s l1a
      by (intro exI[of _ ?c1] exI[of _ ?n']) (simp add: empty_ul_def size_ul_def dec_size_t_def)
  qed
  show ?thesis using part1 part2 by blast
qed

theorem erase_only_element_of_node_witness:
  "unrolled_list_range 2 [1, 2, 3] = Inr two_nodes \<and> wf 2 two_nodes [0, 1]
   \<and> (\<exists>c'. erase two_nodes \<lparr>current_node = Some 1, current_pos = 0\<rparr> = Inr (c', cend)
         \<and> lookup (heap c') 1 = None \<and> wf 2 c' [0] \<and> size_ul c' = 2)
   \<and> unrolled_list_range 2 [7] = Inr one_node \<and> wf 2 one_node [0]
   \<and> (\<exists>c' n'. erase one_node \<lparr>current_node = Some 0, current_pos = 0\<rparr>
                  = Inr (c', \<lparr>current_node = Some 0, current_pos = 0\<rparr>)
         \<and> empty_ul c' \<and> size_ul c' = 0 \<and> head c' = Some 0 \<and> tail c' = Some 0
         \<and> lookup (heap c') 0 = Some n' \<and> nsize n' = 0)"
proof -
  let ?n = "\<lparr>nsize = 1, next = None, prev = Some 0, data = [Some 3, None]\<rparr> :: int Node"
  let ?k = "\<lparr>nsize = 1, next = None, prev = None, data = [Some 7, None]\<rparr> :: int Node"
  have r: "unrolled_list_range 2 [1, 2, 3] = Inr two_nodes"
    "unrolled_list_range 2 [7] = Inr one_node"
    by code_simp+
  have w: "wf 2 two_nodes [0, 1]" "wf 2 one_node [0]" by code_simp+
  have h: "(1 :: nat) \<in> set [0, 1]" "lookup (heap two_nodes) 1 = Some ?n" "nsize ?n = 1"
    "head two_nodes \<noteq> Some 1" "size_ul two_nodes = 3"
    by (simp_all add: two_nodes_def lookup_def size_ul_def)
  have g: "(0 :: nat) \<in> set [0]" "lookup (heap one_node) 0 = Some ?k" "nsize ?k = 1"
    "head one_node = Some 0 \<and> tail one_node = Some 0"
    by (simp_all add: one_node_def lookup_def)
  have a: "\<exists>c'. erase two_nodes \<lparr>current_node = Some 1, current_pos = 0\<rparr> = Inr (c', cend)
         \<and> lookup (heap c') 1 = None \<and> wf 2 c' [0] \<and> size_ul c' = 2"
    using erase_only_element_of_node [OF w(1) h(1,2,3)] h(4,5) by (auto simp: cend_def)
  have b: "\<exists>c' n'. erase one_node \<lparr>current_node = Some 0, current_pos = 0\<rparr>
                  = Inr (c', \<lparr>current_node = Some 0, current_pos = 0\<rparr>)
         \<and> empty_ul c' \<and> size_ul c' = 0 \<and> head c' = Some 0 \<and> tail c' = Some 0
         \<and> lookup (heap c') 0 = Some n' \<and> nsize n' = 0"
    using erase_only_element_of_node [OF w(2) g(1,2,3)] g(4) by blast
  from r w a b show ?thesis by blast
qed

subsection \<open>The demonstration scenario\<close>

text \<open>
  Claim C7. From the empty list, \<open>push_back(1)\<close>, \<open>push_back(2)\<close>, \<open>push_back(3)\<close>,
  \<open>push_front(0)\<close> give the sequence 0, 1, 2, 3; inserting 10 at \<open>std::next(begin())\<close>
  gives 0, 10, 1, 2, 3; erasing at \<open>std::next(begin(), 2)\<close> gives 0, 10, 2, 3; and
  \<open>size()\<close> is then 4.
\<close>

theorem demonstration_scenario:
  "map_sum id traverse scenario_pushes = Inr (Some (Inr [0, 1, 2, 3]))
   \<and> map_sum id traverse scenario_insert = Inr (Some (Inr [0, 10, 1, 2, 3]))
   \<and> map_sum id traverse scenario_erase = Inr (Some (Inr [0, 10, 2, 3]))
   \<and> map_sum id size_ul scenario_erase = Inr 4"
  by code_simp

subsection \<open>Comparison\<close>

text \<open>
  Claim C8 (fails on the code). After \<open>push_back(1); pop_back();\<close> a list holds no
  element and has size 0, as a default-constructed list does; the claim makes the two
  equal. With the popped list on the left, \<open>operator==\<close> finds \<open>begin() != end()\<close>
  there and dereferences \<open>begin()\<close> of the right list, whose node pointer is null:
  undefined behaviour. With the operands exchanged it returns true. (On well-formed lists
  the comparison is as claimed: lemma \<open>operator_eq_on_well_formed\<close>.)
\<close>

theorem operator_eq_on_popped_list:
  "map_sum id (\<lambda>c. (size_ul c, size_ul (unrolled_list_default :: int unrolled_list),
                     operator_eq c unrolled_list_default,
                     operator_eq unrolled_list_default c))
       pushed_then_popped
     = Inr (0, 0, Some (Inl UB), Some (Inr True))"
  by code_simp

subsection \<open>Insertion at the end\<close>

text \<open>
  Claim C9. \<open>emplace(end(), v)\<close> is undefined exactly when \<open>push_back(v)\<close> is; when
  \<open>push_back(v)\<close> returns the list \<open>c'\<close>, \<open>emplace(end(), v)\<close> returns the same list
  \<open>c'\<close> and an iterator into the tail node of \<open>c'\<close> that reads \<open>v\<close>. On a well-formed
  list (with \<open>NodeMaxSize > 0\<close>) both return, the traversal of \<open>c'\<close> is the old traversal
  followed by \<open>v\<close>, and incrementing the returned iterator gives \<open>end()\<close>: it addresses
  the last element.
\<close>

theorem emplace_at_end_is_push_back:
  "(\<forall>e. push_back m c v = Inl e \<longrightarrow> emplace m c cend v = Inl e)
   \<and> (\<forall>c'. push_back m c v = Inr c' \<longrightarrow>
         (\<exists>it. emplace m c cend v = Inr (c', it) \<and> current_node it = tail c'
               \<and> deref c' it = Inr v))
   \<and> (wf m c as \<and> 0 < m \<longrightarrow>
         (\<exists>c' it xs. push_back m c v = Inr c' \<and> emplace m c cend v = Inr (c', it)
               \<and> traverse c = Some (Inr xs) \<and> traverse c' = Some (Inr (xs @ [v]))
               \<and> deref c' it = Inr v \<and> increment c' it = Inr cend))"
proof (intro conjI allI impI)
  fix e assume "push_back m c v = Inl e"
  then show "emplace m c cend v = Inl e" by (simp add: emplace_def push_back_def)
next
  fix c' assume pb: "push_back m c v = Inr c'"
  then have eb: "emplace_back m c v = Inr c'" by (simp add: push_back_def)
  from emplace_back_result[OF eb] obtain t tn where
    t: "tail c' = Some t" "lookup (heap c') t = Some tn" "0 < nsize tn"
      "nsize tn \<le> length (data tn)" "data tn ! (nsize tn - 1) = Some v"
    by blast
  let ?it = "\<lparr>current_node = tail c', current_pos = dec_size_t (nsize tn)\<rparr>"
  have "emplace m c cend v = Inr (c', ?it)"
    using eb t(1,2) by (simp add: emplace_def node_at_def)
  moreover have "deref c' ?it = Inr v"
    using t by (simp add: deref_def node_at_def dec_size_t_def)
  ultimately show "\<exists>it. emplace m c cend v = Inr (c', it) \<and> current_node it = tail c'
      \<and> deref c' it = Inr v"
    by (intro exI[of _ ?it]) simp
next
  assume "wf m c as \<and> 0 < m"
  then have w: "wf m c as" and m: "0 < m" by simp_all
  from emplace_back_wf[OF w m, of v] obtain c' as' where
    c': "emplace_back m c v = Inr c'" "wf m c' as'" "elems c' as' = elems c as @ [v]"
    by blast
  have ne: "as' \<noteq> []" using c'(3) by (auto simp: elems_def)
  from wf_tail[OF c'(2) ne] obtain t tn where
    t: "tail c' = Some t" "lookup (heap c') t = Some tn" "node_ok m tn" "next tn = None"
    by blast
  from emplace_back_result[OF c'(1)] t(1,2) have
    d: "0 < nsize tn" "nsize tn \<le> length (data tn)" "data tn ! (nsize tn - 1) = Some v"
    by auto
  let ?it = "\<lparr>current_node = tail c', current_pos = dec_size_t (nsize tn)\<rparr>"
  have "emplace m c cend v = Inr (c', ?it)"
    using c'(1) t(1,2) by (simp add: emplace_def node_at_def)
  moreover have "deref c' ?it = Inr v"
    using t(1,2) d by (simp add: deref_def node_at_def dec_size_t_def)
  moreover have "increment c' ?it = Inr cend"
    using t d by (simp add: increment_def node_at_def dec_size_t_def cend_def)
  ultimately show "\<exists>c' it xs. push_back m c v = Inr c' \<and> emplace m c cend v = Inr (c', it)
      \<and> traverse c = Some (Inr xs) \<and> traverse c' = Some (Inr (xs @ [v]))
      \<and> deref c' it = Inr v \<and> increment c' it = Inr cend"
    using c' traverse_wf[OF w] traverse_wf[OF c'(2)]
    by (intro exI[of _ c'] exI[of _ ?it] exI[of _ "elems c as"]) (simp add: push_back_def)
qed

theorem emplace_at_end_is_push_back_witness:
  "push_back 0 (unrolled_list_default :: int unrolled_list) 5 = Inl UB
   \<and> emplace 0 (unrolled_list_default :: int unrolled_list) cend 5 = Inl UB
   \<and> wf 10 (unrolled_list_default :: int unrolled_list) [] \<and> (0 :: nat) < 10
   \<and> (\<exists>c' it. push_back 10 unrolled_list_default (5 :: int) = Inr c'
         \<and> emplace 10 unrolled_list_default cend 5 = Inr (c', it)
         \<and> current_node it = tail c'
         \<and> traverse c' = Some (Inr [5])
         \<and> deref c' it = Inr 5 \<and> increment c' it = Inr cend)"
proof -
  let ?d = "unrolled_list_default :: int unrolled_list"
  have f: "push_back 0 ?d 5 = Inl UB" by code_simp
  have w: "wf 10 ?d [] \<and> (0 :: nat) < 10" by (simp add: wf_default)
  have t: "traverse ?d = Some (Inr [])" by code_simp
  note th = emplace_at_end_is_push_back [of _ ?d 5]
  have a: "emplace 0 ?d cend 5 = Inl UB" using th [of 0 "[]"] f by blast
  from th [of 10 "[]"] w t obtain c' it where
    c: "push_back 10 ?d 5 = Inr c'" "emplace 10 ?d cend 5 = Inr (c', it)"
      "traverse c' = Some (Inr [5])" "deref c' it = Inr 5" "increment c' it = Inr cend"
    by auto
  from th [of 10 "[]"] c(1,2) have "current_node it = tail c'" by auto
  with f a w c show ?thesis by blast
qed

subsection \<open>Popping from an empty list\<close>

text \<open>
  Claim C10. \<open>pop_back\<close> and \<open>pop_front\<close> on a list whose \<open>size_\<close> is zero return
  normally and leave the whole state (head, tail, size and every node of the store) as it
  was.
\<close>

theorem pop_on_empty_is_noop:
  "empty_ul c \<Longrightarrow> pop_back c = Inr c \<and> pop_front c = Inr c"
  by (simp add: pop_back_def pop_front_def)

theorem pop_on_empty_is_noop_witness:
  "empty_ul (unrolled_list_default :: int unrolled_list)
   \<and> pop_back (unrolled_list_default :: int unrolled_list) = Inr unrolled_list_default
   \<and> pop_front (unrolled_list_default :: int unrolled_list) = Inr unrolled_list_default"
proof -
  have e: "empty_ul (unrolled_list_default :: int unrolled_list)"
    by (simp add: empty_ul_def unrolled_list_default_def)
  from pop_on_empty_is_noop [OF e] e show ?thesis by simp
qed

end
